theory Spec2Isabelle
  imports Main "HOL-Library.AList" "HOL-Library.Multiset"
begin

section \<open>Component-state storage and the refresh command\<close>

text \<open>
  The development embeds two pieces of the repository:
  \<^item> \<^verbatim>\<open>BlobStorageStateStorage\<close>
    (\<^verbatim>\<open>dagster/_core/storage/defs_state/blob_storage_state_storage.py\<close>), which keeps
    state blobs under \<^verbatim>\<open>base_dir/key/version\<close> and the latest-version record in the run
    storage's cursor table;
  \<^item> the command \<^verbatim>\<open>refresh-component-state\<close> (\<^verbatim>\<open>dagster_dg_cli/cli/utils.py\<close>), which
    refreshes every state-backed component and collects the failures.

  Every raise of the source is a value: a function that mutates the file system or the
  cursor table returns the exception it raised, if any, together with the world it left
  behind.
\<close>

subsection \<open>Exceptions\<close>

text \<open>
  The exceptions that occur: the \<^verbatim>\<open>ValueError\<close> of \<^verbatim>\<open>download_state_to_path\<close> with its
  message, the \<^verbatim>\<open>OSError\<close> subclasses of the path operations and \<^verbatim>\<open>OSError\<close> itself
  with the name of its \<^verbatim>\<open>errno\<close> for the errors that have no subclass, the error of
  \<^verbatim>\<open>deserialize_value\<close>, and for any other \<^verbatim>\<open>Exception\<close> a component's own refresh logic
  raises \<^verbatim>\<open>RefreshError\<close> or \<^verbatim>\<open>FalsyError\<close>. An exception object is true in a boolean
  context unless its class defines \<^verbatim>\<open>__bool__\<close> or \<^verbatim>\<open>__len__\<close> to make it false;
  \<^verbatim>\<open>FalsyError\<close> stands for the exceptions of such classes.
\<close>

datatype exn =
    ValueError string
  | FileNotFoundError
  | FileExistsError
  | IsADirectoryError
  | NotADirectoryError
  | OSError string
  | DeserializationError string
  | RefreshError string
  | FalsyError string

definition truthy :: "exn \<Rightarrow> bool" where
  "truthy e = (case e of FalsyError _ \<Rightarrow> False | _ \<Rightarrow> True)"

subsection \<open>The file system behind \<^verbatim>\<open>UPath\<close> and \<^verbatim>\<open>Path\<close>\<close>

text \<open>
  A path is the list of its segments from the root, and \<^verbatim>\<open>p.parent\<close> drops the last
  one. The file system stores a regular file with its bytes or a directory at a path;
  the root always is a directory. Access rights, symbolic links and failures of the
  device are not part of it: every directory can be searched and written.
\<close>

type_synonym path = "string list"
type_synonym bytes = string

datatype node = File bytes | Dir

type_synonym filesystem = "path \<rightharpoonup> node"

definition parent :: "path \<Rightarrow> path" where
  "parent p = butlast p"

text \<open>
  \<^verbatim>\<open>p / s\<close>, as pathlib joins a POSIX path with a string: the string is split at the
  slashes, the empty pieces and the pieces \<^verbatim>\<open>.\<close> are dropped, and a string that starts
  with a slash replaces the path. A piece \<^verbatim>\<open>..\<close> is kept as it is, as pathlib does; the
  file system below does not resolve it. A string is one segment when joining it
  appends it unchanged and it is not \<^verbatim>\<open>..\<close>.
\<close>

fun split_slash :: "string \<Rightarrow> string list" where
  "split_slash [] = [Nil]"
| "split_slash (c # cs) =
     (if c = CHR ''/'' then [] # split_slash cs
      else case split_slash cs of
        [] \<Rightarrow> [c # Nil]
      | x # xs \<Rightarrow> (c # x) # xs)"

definition parts :: "string \<Rightarrow> string list" where
  "parts s = filter (\<lambda>x. x \<noteq> [] \<and> x \<noteq> ''.'') (split_slash s)"

definition joinpath :: "path \<Rightarrow> string \<Rightarrow> path" where
  "joinpath p s = (if take 1 s = ''/'' then parts s else p @ parts s)"

definition segment :: "string \<Rightarrow> bool" where
  "segment s = (s \<noteq> [] \<and> CHR ''/'' \<notin> set s \<and> s \<noteq> ''.'' \<and> s \<noteq> ''..'')"

text \<open>
  The limits of the file system, those of Linux: a name has at most \<^verbatim>\<open>NAME_MAX\<close> bytes,
  and a path, written as a string with its slashes, has fewer than \<^verbatim>\<open>PATH_MAX\<close> bytes.
  A character counts as one byte.
\<close>

definition NAME_MAX :: nat where
  "NAME_MAX = 255"

definition PATH_MAX :: nat where
  "PATH_MAX = 4096"

definition path_length :: "path \<Rightarrow> nat" where
  "path_length p = sum_list (map (\<lambda>s. Suc (length s)) p)"

definition too_long :: "path \<Rightarrow> bool" where
  "too_long p = ((\<exists>s \<in> set p. NAME_MAX < length s) \<or> PATH_MAX \<le> path_length p)"

text \<open>
  The system call behind every path operation resolves the path from the root, one name
  after the other: an error of the parent is the error of the path (\<^verbatim>\<open>ENOENT\<close> is
  \<^verbatim>\<open>FileNotFoundError\<close>), a name below a regular file is \<^verbatim>\<open>ENOTDIR\<close>, a name longer
  than \<^verbatim>\<open>NAME_MAX\<close> is \<^verbatim>\<open>ENAMETOOLONG\<close>, and a name that the directory does not hold is
  \<^verbatim>\<open>ENOENT\<close>. \<^verbatim>\<open>os.stat\<close> refuses a path of \<^verbatim>\<open>PATH_MAX\<close> bytes or more before it resolves
  anything.
\<close>

function walk :: "filesystem \<Rightarrow> path \<Rightarrow> exn + node" where
  "walk f p =
     (if p = [] then Inr Dir
      else case walk f (parent p) of
        Inl e \<Rightarrow> Inl e
      | Inr (File _) \<Rightarrow> Inl NotADirectoryError
      | Inr Dir \<Rightarrow>
          if NAME_MAX < length (last p) then Inl (OSError ''ENAMETOOLONG'')
          else (case f p of
                  None \<Rightarrow> Inl FileNotFoundError
                | Some n \<Rightarrow> Inr n))"
  by pat_completeness auto
termination
  by (relation "measure (\<lambda>(f, p). length p)") (auto simp: parent_def)

definition stat :: "filesystem \<Rightarrow> path \<Rightarrow> exn + node" where
  "stat f p = (if PATH_MAX \<le> path_length p then Inl (OSError ''ENAMETOOLONG'') else walk f p)"

text \<open>
  \<^verbatim>\<open>Path.exists\<close> and \<^verbatim>\<open>Path.is_dir\<close>, as pathlib writes them: of the errors of \<^verbatim>\<open>stat\<close>
  only \<^verbatim>\<open>ENOENT\<close>, \<^verbatim>\<open>ENOTDIR\<close>, \<^verbatim>\<open>EBADF\<close> and \<^verbatim>\<open>ELOOP\<close> mean that the path does not
  exist, and every other \<^verbatim>\<open>OSError\<close> is raised again. The last two do not occur here.
\<close>

definition ignore_error :: "exn \<Rightarrow> bool" where
  "ignore_error e = (e = FileNotFoundError \<or> e = NotADirectoryError)"

definition path_exists :: "filesystem \<Rightarrow> path \<Rightarrow> exn + bool" where
  "path_exists f p =
     (case stat f p of
        Inr _ \<Rightarrow> Inr True
      | Inl e \<Rightarrow> if ignore_error e then Inr False else Inl e)"

definition is_dir :: "filesystem \<Rightarrow> path \<Rightarrow> exn + bool" where
  "is_dir f p =
     (case stat f p of
        Inr Dir \<Rightarrow> Inr True
      | Inr (File _) \<Rightarrow> Inr False
      | Inl e \<Rightarrow> if ignore_error e then Inr False else Inl e)"

definition read_bytes :: "filesystem \<Rightarrow> path \<Rightarrow> exn + bytes" where
  "read_bytes f p =
     (case stat f p of
        Inl e \<Rightarrow> Inl e
      | Inr Dir \<Rightarrow> Inl IsADirectoryError
      | Inr (File b) \<Rightarrow> Inr b)"

text \<open>
  \<^verbatim>\<open>write_bytes\<close> opens the file for writing, creating or truncating it: the path must
  not be a directory, and a file that does not exist is created if its parent is a
  directory.
\<close>

definition write_bytes :: "filesystem \<Rightarrow> path \<Rightarrow> bytes \<Rightarrow> exn + filesystem" where
  "write_bytes f p b =
     (case stat f p of
        Inr Dir \<Rightarrow> Inl IsADirectoryError
      | Inr (File _) \<Rightarrow> Inr (f(p \<mapsto> File b))
      | Inl e \<Rightarrow>
          if e = FileNotFoundError \<and> stat f (parent p) = Inr Dir
          then Inr (f(p \<mapsto> File b))
          else Inl e)"

text \<open>\<^verbatim>\<open>os.mkdir\<close>: creates one directory below an existing directory.\<close>

definition os_mkdir :: "filesystem \<Rightarrow> path \<Rightarrow> exn + filesystem" where
  "os_mkdir f p =
     (case stat f p of
        Inr _ \<Rightarrow> Inl FileExistsError
      | Inl e \<Rightarrow>
          if e = FileNotFoundError \<and> stat f (parent p) = Inr Dir
          then Inr (f(p \<mapsto> Dir))
          else Inl e)"

text \<open>
  \<^verbatim>\<open>Path.mkdir(parents=False, exist_ok=True)\<close>: a missing parent is raised, any other
  error is swallowed when the path is a directory already; an error of \<^verbatim>\<open>is_dir\<close> is
  raised in its place.
\<close>

definition mkdir_exist_ok :: "filesystem \<Rightarrow> path \<Rightarrow> exn option \<times> filesystem" where
  "mkdir_exist_ok f p =
     (case os_mkdir f p of
        Inr f' \<Rightarrow> (None, f')
      | Inl e \<Rightarrow>
          if e = FileNotFoundError then (Some e, f)
          else (case is_dir f p of
                  Inl e' \<Rightarrow> (Some e', f)
                | Inr d \<Rightarrow> if d then (None, f) else (Some e, f)))"

text \<open>
  \<^verbatim>\<open>Path.mkdir(parents=True, exist_ok=True)\<close>, as pathlib writes it: try \<^verbatim>\<open>os.mkdir\<close>; on
  a missing parent create the parent the same way and then the directory itself; on any
  other error succeed only if the path is a directory.
\<close>

function mkdir_parents :: "filesystem \<Rightarrow> path \<Rightarrow> exn option \<times> filesystem" where
  "mkdir_parents f p =
     (case os_mkdir f p of
        Inr f' \<Rightarrow> (None, f')
      | Inl e \<Rightarrow>
          if e = FileNotFoundError then
            (if p = [] then (Some e, f)
             else case mkdir_parents f (parent p) of
               (Some e', f1) \<Rightarrow> (Some e', f1)
             | (None, f1) \<Rightarrow> mkdir_exist_ok f1 p)
          else (case is_dir f p of
                  Inl e' \<Rightarrow> (Some e', f)
                | Inr d \<Rightarrow> if d then (None, f) else (Some e, f)))"
  by pat_completeness auto
termination
  by (relation "measure (\<lambda>(f, p). length p)") (auto simp: parent_def)

subsection \<open>The latest-version record and the world\<close>

text \<open>
  \<^verbatim>\<open>DefsStateInfo\<close> is the record the tests read: \<^verbatim>\<open>info_mapping\<close> maps a state key to an
  entry with a \<^verbatim>\<open>version\<close>.
\<close>

record DefsStateKeyInfo =
  version :: string

record DefsStateInfo =
  info_mapping :: "string \<rightharpoonup> DefsStateKeyInfo"

text \<open>
  The world a storage object acts on: the file system and the cursor table of the run
  storage. The values of the cursor table are of a type \<open>'r\<close> of serialized values.
  \<^verbatim>\<open>serialize_value\<close> and \<^verbatim>\<open>deserialize_value\<close> are not part of the sources at hand; the
  functions below take them as the parameters \<open>ser\<close> and \<open>deser\<close>.
\<close>

record 'r world =
  fs :: filesystem
  cursors :: "string \<rightharpoonup> 'r"

definition INFO_KEY :: string where
  "INFO_KEY = ''__latest_defs_state_info__''"

text \<open>
  Modelled from the spec: \<^verbatim>\<open>get_cursor_values\<close> of the run storage, which is not part of
  the sources at hand. The cursor table is the "generic small key-value interface with
  get(key) -> bytes|absent and set(key, bytes) semantics"; \<^verbatim>\<open>get_cursor_values(keys)\<close>
  returns the entries stored under the given keys.
\<close>

definition get_cursor_values :: "string set \<Rightarrow> 'r world \<Rightarrow> (string \<rightharpoonup> 'r)" where
  "get_cursor_values keys w = cursors w |` keys"

text \<open>
  Modelled from the spec: \<^verbatim>\<open>set_cursor_values\<close> of the run storage, which is not part of
  the sources at hand. It stores every given pair and leaves the other keys as they are.
\<close>

definition set_cursor_values :: "(string \<rightharpoonup> 'r) \<Rightarrow> 'r world \<Rightarrow> 'r world" where
  "set_cursor_values pairs w = w\<lparr>cursors := cursors w ++ pairs\<rparr>"

subsection \<open>\<^verbatim>\<open>BlobStorageStateStorage\<close>\<close>

text \<open>\<^verbatim>\<open>__init__\<close> creates the base directory.\<close>

definition init_storage :: "path \<Rightarrow> 'r world \<Rightarrow> exn option \<times> 'r world" where
  "init_storage base_dir w =
     (case mkdir_parents (fs w) base_dir of (r, f') \<Rightarrow> (r, w\<lparr>fs := f'\<rparr>))"

definition get_state_path :: "path \<Rightarrow> string \<Rightarrow> string \<Rightarrow> path" where
  "get_state_path base_dir key vers = joinpath (joinpath base_dir key) vers"

definition state_not_found :: "string \<Rightarrow> string \<Rightarrow> exn" where
  "state_not_found key vers =
     ValueError (''No state found for key '' @ key @ '' and version '' @ vers)"

definition download_state_to_path ::
  "path \<Rightarrow> string \<Rightarrow> string \<Rightarrow> path \<Rightarrow> 'r world \<Rightarrow> exn option \<times> 'r world" where
  "download_state_to_path base_dir key vers path w =
     (let remote_path = get_state_path base_dir key vers in
      case path_exists (fs w) remote_path of
        Inl e \<Rightarrow> (Some e, w)
      | Inr ex \<Rightarrow>
          if \<not> ex then (Some (state_not_found key vers), w)
          else (case read_bytes (fs w) remote_path of
                  Inl e \<Rightarrow> (Some e, w)
                | Inr b \<Rightarrow>
                    (case write_bytes (fs w) path b of
                       Inl e \<Rightarrow> (Some e, w)
                     | Inr f' \<Rightarrow> (None, w\<lparr>fs := f'\<rparr>))))"

definition get_latest_defs_state_info ::
  "('r \<Rightarrow> exn + DefsStateInfo) \<Rightarrow> 'r world \<Rightarrow> exn + DefsStateInfo option" where
  "get_latest_defs_state_info deser w =
     (let raw_value = get_cursor_values {INFO_KEY} w INFO_KEY in
      case raw_value of
        None \<Rightarrow> Inr None
      | Some r \<Rightarrow> (case deser r of Inl e \<Rightarrow> Inl e | Inr info \<Rightarrow> Inr (Some info)))"

text \<open>
  Modelled from the spec: the modify step of \<^verbatim>\<open>get_updated_defs_state_info\<close>, which is not
  part of the sources at hand: "set/overwrite the entry for key to {version}", starting
  from the empty record if there is none; "old entries for other keys are preserved,
  only the refreshed key's entry changes".
\<close>

definition add_version :: "DefsStateInfo option \<Rightarrow> string \<Rightarrow> string \<Rightarrow> DefsStateInfo" where
  "add_version current_info key v =
     (case current_info of
        None \<Rightarrow> \<lparr>info_mapping = [key \<mapsto> \<lparr>version = v\<rparr>]\<rparr>
      | Some info \<Rightarrow> \<lparr>info_mapping = (info_mapping info)(key \<mapsto> \<lparr>version = v\<rparr>)\<rparr>)"

text \<open>
  Modelled from the spec: \<^verbatim>\<open>DefsStateStorage.get_updated_defs_state_info\<close> of the base
  class, which is not part of the sources at hand: "read current DefsStateInfo (or empty
  if absent), set/overwrite the entry for key to {version}". A record that cannot be
  read raises.
\<close>

definition get_updated_defs_state_info ::
  "('r \<Rightarrow> exn + DefsStateInfo) \<Rightarrow> string \<Rightarrow> string \<Rightarrow> 'r world \<Rightarrow> exn + DefsStateInfo" where
  "get_updated_defs_state_info deser key v w =
     (case get_latest_defs_state_info deser w of
        Inl e \<Rightarrow> Inl e
      | Inr current_info \<Rightarrow> Inr (add_version current_info key v))"

definition set_latest_version ::
  "(DefsStateInfo \<Rightarrow> 'r) \<Rightarrow> ('r \<Rightarrow> exn + DefsStateInfo) \<Rightarrow> string \<Rightarrow> string \<Rightarrow> 'r world
     \<Rightarrow> exn option \<times> 'r world" where
  "set_latest_version ser deser key v w =
     (case get_updated_defs_state_info deser key v w of
        Inl e \<Rightarrow> (Some e, w)
      | Inr info \<Rightarrow> (None, set_cursor_values [INFO_KEY \<mapsto> ser info] w))"

text \<open>
  The first three statements of \<^verbatim>\<open>upload_state_from_path\<close> write the blob: the
  directory of the key is created, the source is read, the bytes are written.
\<close>

definition write_blob ::
  "path \<Rightarrow> string \<Rightarrow> string \<Rightarrow> path \<Rightarrow> filesystem \<Rightarrow> exn option \<times> filesystem" where
  "write_blob base_dir key vers path f =
     (let remote_path = get_state_path base_dir key vers in
      case mkdir_parents f (parent remote_path) of
        (Some e, f1) \<Rightarrow> (Some e, f1)
      | (None, f1) \<Rightarrow>
          (case read_bytes f1 path of
             Inl e \<Rightarrow> (Some e, f1)
           | Inr b \<Rightarrow>
               (case write_bytes f1 remote_path b of
                  Inl e \<Rightarrow> (Some e, f1)
                | Inr f2 \<Rightarrow> (None, f2))))"

definition upload_state_from_path ::
  "(DefsStateInfo \<Rightarrow> 'r) \<Rightarrow> ('r \<Rightarrow> exn + DefsStateInfo) \<Rightarrow> path \<Rightarrow> string \<Rightarrow> string \<Rightarrow> path
     \<Rightarrow> 'r world \<Rightarrow> exn option \<times> 'r world" where
  "upload_state_from_path ser deser base_dir key vers path w =
     (case write_blob base_dir key vers path (fs w) of
        (Some e, f1) \<Rightarrow> (Some e, w\<lparr>fs := f1\<rparr>)
      | (None, f2) \<Rightarrow> set_latest_version ser deser key vers (w\<lparr>fs := f2\<rparr>))"

subsection \<open>The command \<^verbatim>\<open>refresh-component-state\<close>\<close>

text \<open>
  \<^verbatim>\<open>ComponentStateRefreshStatus\<close>: the status literal and the optional exception. The
  status map \<^verbatim>\<open>statuses\<close> is a Python dict: an association list in insertion order, in
  which an assignment to a key that is present replaces the value in place and an
  assignment to a new key appends (\<^const>\<open>AList.update\<close>).
\<close>

datatype status_literal = Updating | Success | Error

record ComponentStateRefreshStatus =
  status :: status_literal
  error :: "exn option"

type_synonym statuses = "(string \<times> ComponentStateRefreshStatus) list"

text \<open>
  What the command needs of a \<^verbatim>\<open>StateBackedComponent\<close>: its state key, which
  \<^verbatim>\<open>get_state_key()\<close> returns at every call, and its \<^verbatim>\<open>refresh_state\<close>, which acts on a
  world \<open>'w\<close> and returns normally or raises. A refresh that never finishes is not
  modelled: the join would not complete. Only an \<^verbatim>\<open>Exception\<close> is caught by
  \<^verbatim>\<open>_refresh_component\<close>, so only those are modelled.
\<close>

record 'w component =
  get_state_key :: string
  refresh_state :: "'w \<Rightarrow> exn option \<times> 'w"

text \<open>
  \<^verbatim>\<open>_refresh_component\<close>; the redrawing of the terminal by \<^verbatim>\<open>_update_display\<close> writes to
  the standard output only: it changes neither the status map nor the world, is taken
  not to raise, and is left out.
\<close>

definition refresh_component ::
  "'w component \<Rightarrow> statuses \<times> 'w \<Rightarrow> statuses \<times> 'w" where
  "refresh_component component sw =
     (case sw of (statuses, w) \<Rightarrow>
        let key = get_state_key component in
        (case refresh_state component w of
           (None, w') \<Rightarrow> (AList.update key \<lparr>status = Success, error = None\<rparr> statuses, w')
         | (Some e, w') \<Rightarrow> (AList.update key \<lparr>status = Error, error = Some e\<rparr> statuses, w')))"

text \<open>
  \<^verbatim>\<open>asyncio.gather\<close> runs the coroutines on one event loop and returns when all of them
  are done. The order in which they finish is the scheduler's: \<open>sched n\<close> picks, among
  \<open>n\<close> pending coroutines, the one that finishes next. Every order of completion is the
  order of some \<open>sched\<close>. The effect of a coroutine on the world and on the status map
  is applied when it finishes.
\<close>

function completion_order :: "(nat \<Rightarrow> nat) \<Rightarrow> 'a list \<Rightarrow> 'a list" where
  "completion_order sched pending =
     (if pending = [] then []
      else let i = sched (length pending) mod length pending in
           pending ! i # completion_order sched (take i pending @ drop (Suc i) pending))"
  by pat_completeness auto
termination
proof (relation "measure (\<lambda>(sched, pending). length pending)", goal_cases)
  case 1
  show ?case by simp
next
  case (2 sched pending i)
  from 2(1) have "i < length pending"
    unfolding 2(2) by simp
  then have "length (take i pending @ drop (Suc i) pending) < length pending"
    by simp
  then show ?case by simp
qed

definition refresh_components_with_display ::
  "(nat \<Rightarrow> nat) \<Rightarrow> 'w component list \<Rightarrow> statuses \<Rightarrow> 'w \<Rightarrow> statuses \<times> 'w" where
  "refresh_components_with_display sched components statuses w =
     fold refresh_component (completion_order sched components) (statuses, w)"

text \<open>The dict comprehension that initialises the status map.\<close>

definition initial_statuses :: "'w component list \<Rightarrow> statuses" where
  "initial_statuses to_refresh =
     fold (\<lambda>component. AList.update (get_state_key component) \<lparr>status = Updating, error = None\<rparr>)
       to_refresh []"

text \<open>
  The loop that collects the errors from the status map. The test \<^verbatim>\<open>status.error\<close> is a
  test of truth: it fails for \<^verbatim>\<open>None\<close> and for an exception that is false in a boolean
  context.
\<close>

fun collect_errors :: "statuses \<Rightarrow> (string \<times> exn) list" where
  "collect_errors [] = []"
| "collect_errors ((key, st) # rest) =
     (if status st = Error then
        (case error st of
           Some e \<Rightarrow> if truthy e then (key, e) # collect_errors rest else collect_errors rest
         | None \<Rightarrow> collect_errors rest)
      else collect_errors rest)"

text \<open>
  The result of the command: the \<^verbatim>\<open>(key, error)\<close> pairs it echoes below "Errors occurred
  during component refresh:", the exception it raises (none when it echoes "Done!"),
  and the world it leaves behind.
\<close>

record 'w refresh_result =
  echoed :: "(string \<times> exn) list"
  raised :: "exn option"
  final :: 'w

definition refresh_component_state ::
  "(nat \<Rightarrow> nat) \<Rightarrow> 'w component list \<Rightarrow> 'w \<Rightarrow> 'w refresh_result" where
  "refresh_component_state sched to_refresh w =
     (case refresh_components_with_display sched to_refresh (initial_statuses to_refresh) w of
        (statuses, w') \<Rightarrow>
          (case collect_errors statuses of
             [] \<Rightarrow> \<lparr>echoed = [], raised = None, final = w'\<rparr>
           | first # others \<Rightarrow>
               \<lparr>echoed = first # others, raised = Some (snd first), final = w'\<rparr>))"

text \<open>
  Modelled from the spec: \<^verbatim>\<open>StateBackedComponent.refresh_state\<close>, which is not part of the
  sources at hand. The component's own refresh operation "internally computes new state
  and calls upload_state_from_path against the facade": \<open>write_state\<close> computes the new
  state into the local file \<open>path\<close> and may raise; it acts on the file system only. The
  state is then uploaded under the component's key with the version \<open>vers\<close>.
\<close>

definition state_backed_component ::
  "(DefsStateInfo \<Rightarrow> 'r) \<Rightarrow> ('r \<Rightarrow> exn + DefsStateInfo) \<Rightarrow> path
     \<Rightarrow> string \<times> string \<times> path \<times> (filesystem \<Rightarrow> exn option \<times> filesystem)
     \<Rightarrow> 'r world component" where
  "state_backed_component ser deser base_dir spec =
     (case spec of (key, vers, path, write_state) \<Rightarrow>
        \<lparr>get_state_key = key,
         refresh_state = (\<lambda>w.
           case write_state (fs w) of
             (Some e, f1) \<Rightarrow> (Some e, w\<lparr>fs := f1\<rparr>)
           | (None, f1) \<Rightarrow>
               upload_state_from_path ser deser base_dir key vers path (w\<lparr>fs := f1\<rparr>))\<rparr>)"

text \<open>
  The outcomes of the coroutines in the order in which they finish, each with the key of
  its component: what \<^verbatim>\<open>refresh_state\<close> returned to \<^verbatim>\<open>_refresh_component\<close>.
\<close>

fun run_outcomes :: "'w component list \<Rightarrow> 'w \<Rightarrow> (string \<times> exn option) list" where
  "run_outcomes [] w = []"
| "run_outcomes (c # cs) w =
     (get_state_key c, fst (refresh_state c w)) # run_outcomes cs (snd (refresh_state c w))"

subsection \<open>Observations used to state the properties\<close>

text \<open>
  The version the latest-version record holds for a key, as the tests read it:
  \<^verbatim>\<open>get_latest_defs_state_info().info_mapping[key].version\<close>.
\<close>

definition latest_version ::
  "('r \<Rightarrow> exn + DefsStateInfo) \<Rightarrow> 'r world \<Rightarrow> string \<Rightarrow> exn + string option" where
  "latest_version deser w key =
     (case get_latest_defs_state_info deser w of
        Inl e \<Rightarrow> Inl e
      | Inr None \<Rightarrow> Inr None
      | Inr (Some info) \<Rightarrow> Inr (map_option version (info_mapping info key)))"

text \<open>A run of uploads, one after the other, whether they return or raise.\<close>

fun uploads ::
  "(DefsStateInfo \<Rightarrow> 'r) \<Rightarrow> ('r \<Rightarrow> exn + DefsStateInfo) \<Rightarrow> path \<Rightarrow> (string \<times> string \<times> path) list
     \<Rightarrow> 'r world \<Rightarrow> 'r world" where
  "uploads ser deser base_dir [] w = w"
| "uploads ser deser base_dir ((key, vers, path) # rest) w =
     uploads ser deser base_dir rest
       (snd (upload_state_from_path ser deser base_dir key vers path w))"

text \<open>The status \<^verbatim>\<open>_refresh_component\<close> records for an outcome of \<^verbatim>\<open>refresh_state\<close>.\<close>

definition status_of_outcome :: "exn option \<Rightarrow> ComponentStateRefreshStatus" where
  "status_of_outcome r =
     (case r of
        None \<Rightarrow> \<lparr>status = Success, error = None\<rparr>
      | Some e \<Rightarrow> \<lparr>status = Error, error = Some e\<rparr>)"

text \<open>The world after the coroutines have finished in the given order.\<close>

fun run_world :: "'w component list \<Rightarrow> 'w \<Rightarrow> 'w" where
  "run_world [] w = w"
| "run_world (c # cs) w = run_world cs (snd (refresh_state c w))"

subsection \<open>Concrete worlds and components\<close>

text \<open>
  A codec for the examples: a serialized value is a record or is corrupt. A world with
  a base directory and a local state file; the same world after one upload. Three
  components of which the second fails to write its state, as in
  \<^verbatim>\<open>test_refresh_state_command\<close>; two components with the same state key of which the
  first fails to write its state; three components of which two share a state key. The
  scheduler \<open>first_pending\<close> lets the coroutines finish in the order of the list.
\<close>

definition example_ser :: "DefsStateInfo \<Rightarrow> DefsStateInfo option" where
  "example_ser info = Some info"

definition example_deser :: "DefsStateInfo option \<Rightarrow> exn + DefsStateInfo" where
  "example_deser r =
     (case r of None \<Rightarrow> Inl (DeserializationError ''corrupt'') | Some info \<Rightarrow> Inr info)"

definition example_world :: "DefsStateInfo option world" where
  "example_world =
     \<lparr>fs = Map.empty([''tmp''] \<mapsto> Dir, [''tmp'', ''state''] \<mapsto> File ''abc'',
             [''base''] \<mapsto> Dir),
      cursors = Map.empty\<rparr>"

definition example_world_uploaded :: "DefsStateInfo option world" where
  "example_world_uploaded =
     snd (upload_state_from_path example_ser example_deser [''base''] ''k'' ''v1''
            [''tmp'', ''state''] example_world)"

definition example_world_corrupt :: "DefsStateInfo option world" where
  "example_world_corrupt = example_world\<lparr>cursors := [INFO_KEY \<mapsto> None]\<rparr>"

definition first_pending :: "nat \<Rightarrow> nat" where
  "first_pending n = 0"

definition example_specs ::
  "(string \<times> string \<times> path \<times> (filesystem \<Rightarrow> exn option \<times> filesystem)) list" where
  "example_specs =
     [(''a'', ''v2'', [''tmp'', ''a''], \<lambda>f. (None, f([''tmp'', ''a''] \<mapsto> File ''A''))),
      (''b'', ''v2'', [''tmp'', ''b''], \<lambda>f. (Some (RefreshError ''fail_write''), f)),
      (''c'', ''v2'', [''tmp'', ''c''], \<lambda>f. (None, f([''tmp'', ''c''] \<mapsto> File ''C'')))]"

definition example_components :: "DefsStateInfo option world component list" where
  "example_components =
     map (state_backed_component example_ser example_deser [''base'']) example_specs"

definition example_masked_specs ::
  "(string \<times> string \<times> path \<times> (filesystem \<Rightarrow> exn option \<times> filesystem)) list" where
  "example_masked_specs =
     [(''a'', ''v2'', [''tmp'', ''a''], \<lambda>f. (Some (RefreshError ''fail_write''), f)),
      (''a'', ''v3'', [''tmp'', ''a''], \<lambda>f. (None, f([''tmp'', ''a''] \<mapsto> File ''A'')))]"

definition example_masked :: "DefsStateInfo option world component list" where
  "example_masked =
     map (state_backed_component example_ser example_deser [''base'']) example_masked_specs"

definition example_same_key :: "unit component list" where
  "example_same_key =
     [\<lparr>get_state_key = ''a'', refresh_state = (\<lambda>w. (Some (RefreshError ''boom''), w))\<rparr>,
      \<lparr>get_state_key = ''b'', refresh_state = (\<lambda>w. (None, w))\<rparr>,
      \<lparr>get_state_key = ''a'', refresh_state = (\<lambda>w. (None, w))\<rparr>]"

section \<open>Properties of the storage\<close>

declare walk.simps [simp del]
declare mkdir_parents.simps [simp del]
declare completion_order.simps [simp del]

subsection \<open>The file system\<close>

text \<open>
  Resolving a path: the root is a directory, a path that resolves has a parent that
  resolves to a directory, a last name within the limit and a node stored at it.
\<close>

lemma walk_Nil [simp]: "walk f [] = Inr Dir"
  by (simp add: walk.simps)

lemma parent_neq: "p \<noteq> [] \<Longrightarrow> parent p \<noteq> p"
  by (induction p rule: rev_induct) (simp_all add: parent_def)

lemma walk_Inr:
  assumes "walk f p = Inr n" and "p \<noteq> []"
  shows "walk f (parent p) = Inr Dir \<and> length (last p) \<le> NAME_MAX \<and> f p = Some n"
  using assms
  by (auto simp: walk.simps [of f p] split: sum.splits node.splits if_splits option.splits)

lemma walk_step:
  assumes "p \<noteq> []" and "walk f (parent p) = Inr Dir" and "length (last p) \<le> NAME_MAX"
  shows "walk f p = (case f p of None \<Rightarrow> Inl FileNotFoundError | Some n \<Rightarrow> Inr n)"
  using assms by (simp add: walk.simps [of f p])

lemma path_length_parent: "path_length (parent p) \<le> path_length p"
proof (cases "p = []")
  case True
  then show ?thesis by (simp add: parent_def)
next
  case False
  then have "p = butlast p @ [last p]" by simp
  then have "path_length p = path_length (butlast p) + Suc (length (last p))"
    unfolding path_length_def by (metis (no_types, lifting) list.simps(8,9) map_append
        sum_list.Cons sum_list.Nil sum_list.append add.right_neutral)
  then show ?thesis by (simp add: parent_def)
qed

lemma stat_Inr: "stat f p = Inr n \<longleftrightarrow> path_length p < PATH_MAX \<and> walk f p = Inr n"
  by (auto simp: stat_def)

lemma stat_Nil [simp]: "stat f [] = Inr Dir"
  by (simp add: stat_def path_length_def PATH_MAX_def)

lemma stat_parent:
  assumes "stat f p = Inr n" and "p \<noteq> []"
  shows "stat f (parent p) = Inr Dir"
proof -
  from assms(1) have "path_length p < PATH_MAX" and "walk f p = Inr n"
    by (simp_all add: stat_Inr)
  with path_length_parent [of p] walk_Inr [OF _ assms(2)] show ?thesis
    by (simp add: stat_Inr)
qed

text \<open>
  Storing a node at a path where no directory was changes no other path that resolves;
  a larger file system resolves what the smaller one does.
\<close>

lemma walk_upd_other:
  "f p \<noteq> Some Dir \<Longrightarrow> q \<noteq> p \<Longrightarrow> walk f q = Inr n \<Longrightarrow> walk (f(p \<mapsto> x)) q = Inr n"
proof (induction f q arbitrary: n rule: walk.induct)
  case (1 f q)
  show ?case
  proof (cases "q = []")
    case True
    with "1.prems" show ?thesis by simp
  next
    case False
    from walk_Inr [OF "1.prems"(3) False] have
      a: "walk f (parent q) = Inr Dir" and b: "length (last q) \<le> NAME_MAX" and
      c: "f q = Some n"
      by simp_all
    have "walk (f(p \<mapsto> x)) (parent q) = Inr Dir"
    proof (cases "parent q = p")
      case True
      show ?thesis
      proof (cases "p = []")
        case True
        with \<open>parent q = p\<close> show ?thesis by simp
      next
        case False
        from a True have "walk f p = Inr Dir" by simp
        from walk_Inr [OF this False] "1.prems"(1) show ?thesis by simp
      qed
    next
      case False
      from "1.IH" [OF \<open>q \<noteq> []\<close> "1.prems"(1) False a] show ?thesis .
    qed
    from walk_step [OF False this b] c "1.prems"(2)
    show "walk (f(p \<mapsto> x)) q = Inr n" by simp
  qed
qed

lemma stat_upd_other:
  "f p \<noteq> Some Dir \<Longrightarrow> q \<noteq> p \<Longrightarrow> stat f q = Inr n \<Longrightarrow> stat (f(p \<mapsto> x)) q = Inr n"
  by (simp add: stat_Inr walk_upd_other)

lemma walk_mono: "f \<subseteq>\<^sub>m g \<Longrightarrow> walk f q = Inr n \<Longrightarrow> walk g q = Inr n"
proof (induction f q arbitrary: n rule: walk.induct)
  case (1 f q)
  show ?case
  proof (cases "q = []")
    case True
    with "1.prems" show ?thesis by simp
  next
    case False
    from walk_Inr [OF "1.prems"(2) False] have
      a: "walk f (parent q) = Inr Dir" and b: "length (last q) \<le> NAME_MAX" and
      c: "f q = Some n"
      by simp_all
    from c "1.prems"(1) have "g q = Some n"
      by (auto simp: map_le_def dom_def)
    with walk_step [OF False "1.IH" [OF False "1.prems"(1) a] b] show ?thesis by simp
  qed
qed

lemma stat_mono: "f \<subseteq>\<^sub>m g \<Longrightarrow> stat f q = Inr n \<Longrightarrow> stat g q = Inr n"
  by (simp add: stat_Inr walk_mono)

text \<open>
  A path that does not resolve for want of its last name only: nothing is stored
  there, and storing a node there makes the path resolve to it.
\<close>

lemma stat_missing:
  assumes "stat f p = Inl FileNotFoundError" and "stat f (parent p) = Inr Dir"
  shows "p \<noteq> [] \<and> f p = None \<and> stat (f(p \<mapsto> n)) p = Inr n"
proof -
  from assms(1) have len: "path_length p < PATH_MAX" and w: "walk f p = Inl FileNotFoundError"
    by (auto simp: stat_def split: if_splits)
  from w have ne: "p \<noteq> []" by auto
  from assms(2) have wp: "walk f (parent p) = Inr Dir"
    by (simp add: stat_Inr)
  from w wp ne have name: "length (last p) \<le> NAME_MAX" and none: "f p = None"
    by (auto simp: walk.simps [of f p] split: if_splits option.splits)
  from none have "f p \<noteq> Some Dir" by simp
  from walk_upd_other [OF this parent_neq [OF ne] wp]
  have "walk (f(p \<mapsto> n)) (parent p) = Inr Dir" .
  from walk_step [OF ne this name] have "walk (f(p \<mapsto> n)) p = Inr n" by simp
  with len ne none show ?thesis by (simp add: stat_Inr)
qed

text \<open>
  Creating directories adds directories where nothing was: the file system grows, and
  no path longer than the one created is touched.
\<close>

lemma os_mkdir_Inr:
  assumes "os_mkdir f p = Inr f'"
  shows "p \<noteq> [] \<and> f p = None \<and> f' = f(p \<mapsto> Dir) \<and> stat f' p = Inr Dir"
proof -
  from assms have a: "stat f p = Inl FileNotFoundError" and b: "stat f (parent p) = Inr Dir"
    and c: "f' = f(p \<mapsto> Dir)"
    by (auto simp: os_mkdir_def split: sum.splits if_splits)
  from stat_missing [OF a b, of Dir] c show ?thesis by simp
qed

lemma os_mkdir_le: "os_mkdir f p = Inr f' \<Longrightarrow> f \<subseteq>\<^sub>m f'"
  by (auto simp: map_le_def dest!: os_mkdir_Inr)

lemma mkdir_exist_ok_cases:
  assumes "mkdir_exist_ok f p = (r, f')"
  shows "os_mkdir f p = Inr f' \<or> f' = f \<and> (r = None \<longrightarrow> stat f p = Inr Dir)"
  using assms
  by (auto simp: mkdir_exist_ok_def is_dir_def
      split: sum.splits if_splits node.splits)

lemma mkdir_exist_ok_le: "mkdir_exist_ok f p = (r, f') \<Longrightarrow> f \<subseteq>\<^sub>m f'"
  by (auto dest!: mkdir_exist_ok_cases os_mkdir_le)

lemma mkdir_parents_le: "mkdir_parents f p = (r, f') \<Longrightarrow> f \<subseteq>\<^sub>m f'"
proof (induction f p arbitrary: r f' rule: mkdir_parents.induct)
  case (1 f p)
  show ?case
  proof (cases "os_mkdir f p")
    case (Inr g)
    with "1.prems" show ?thesis
      by (auto simp: mkdir_parents.simps [of f p] dest: os_mkdir_le)
  next
    case (Inl e)
    show ?thesis
    proof (cases "e = FileNotFoundError \<and> p \<noteq> []")
      case False
      with "1.prems" Inl show ?thesis
        by (auto simp: mkdir_parents.simps [of f p] split: if_splits sum.splits)
    next
      case True
      obtain r1 f1 where rec: "mkdir_parents f (parent p) = (r1, f1)"
        by (cases "mkdir_parents f (parent p)")
      from True have "e = FileNotFoundError" and "p \<noteq> []" by simp_all
      from "1.IH" [OF Inl this rec] have f1: "f \<subseteq>\<^sub>m f1" .
      show ?thesis
      proof (cases r1)
        case None
        with "1.prems" Inl True rec have "mkdir_exist_ok f1 p = (r, f')"
          by (simp add: mkdir_parents.simps [of f p])
        from mkdir_exist_ok_le [OF this] f1 show ?thesis
          by (rule map_le_trans [rotated])
      next
        case (Some e')
        with "1.prems" Inl True rec have "f' = f1"
          by (simp add: mkdir_parents.simps [of f p])
        with f1 show ?thesis by simp
      qed
    qed
  qed
qed

lemma mkdir_exist_ok_longer:
  "mkdir_exist_ok f p = (r, f') \<Longrightarrow> length p < length q \<Longrightarrow> f' q = f q"
  by (auto dest!: mkdir_exist_ok_cases os_mkdir_Inr)

lemma mkdir_parents_longer:
  "mkdir_parents f p = (r, f') \<Longrightarrow> length p < length q \<Longrightarrow> f' q = f q"
proof (induction f p arbitrary: r f' rule: mkdir_parents.induct)
  case (1 f p)
  show ?case
  proof (cases "os_mkdir f p")
    case (Inr g)
    with "1.prems" show ?thesis
      by (auto simp: mkdir_parents.simps [of f p] dest!: os_mkdir_Inr)
  next
    case (Inl e)
    show ?thesis
    proof (cases "e = FileNotFoundError \<and> p \<noteq> []")
      case False
      with "1.prems" Inl show ?thesis
        by (auto simp: mkdir_parents.simps [of f p] split: if_splits sum.splits)
    next
      case True
      obtain r1 f1 where rec: "mkdir_parents f (parent p) = (r1, f1)"
        by (cases "mkdir_parents f (parent p)")
      from True have "e = FileNotFoundError" and "p \<noteq> []" by simp_all
      from "1.prems"(2) have "length (parent p) < length q" by (simp add: parent_def)
      from "1.IH" [OF Inl \<open>e = FileNotFoundError\<close> \<open>p \<noteq> []\<close> rec this] have f1: "f1 q = f q" .
      show ?thesis
      proof (cases r1)
        case None
        with "1.prems"(1) Inl True rec have "mkdir_exist_ok f1 p = (r, f')"
          by (simp add: mkdir_parents.simps [of f p])
        from mkdir_exist_ok_longer [OF this "1.prems"(2)] f1 show ?thesis by simp
      next
        case (Some e')
        with "1.prems"(1) Inl True rec have "f' = f1"
          by (simp add: mkdir_parents.simps [of f p])
        with f1 show ?thesis by simp
      qed
    qed
  qed
qed

text \<open>
  After \<^const>\<open>mkdir_parents\<close> has returned the path is a directory, and creating it once
  more changes nothing.
\<close>

lemma mkdir_exist_ok_made:
  "mkdir_exist_ok f p = (None, f') \<Longrightarrow> stat f' p = Inr Dir"
  by (auto dest!: mkdir_exist_ok_cases os_mkdir_Inr)

lemma mkdir_parents_made:
  assumes "mkdir_parents f p = (None, f')"
  shows "stat f' p = Inr Dir"
proof (cases "os_mkdir f p")
  case (Inr g)
  with assms show ?thesis
    by (auto simp: mkdir_parents.simps [of f p] dest!: os_mkdir_Inr)
next
  case (Inl e)
  show ?thesis
  proof (cases "e = FileNotFoundError \<and> p \<noteq> []")
    case False
    with assms Inl show ?thesis
      by (auto simp: mkdir_parents.simps [of f p] is_dir_def
          split: if_splits sum.splits node.splits)
  next
    case True
    obtain r1 f1 where rec: "mkdir_parents f (parent p) = (r1, f1)"
      by (cases "mkdir_parents f (parent p)")
    from assms Inl True rec have "mkdir_exist_ok f1 p = (None, f')"
      by (cases r1) (auto simp: mkdir_parents.simps [of f p] split: if_splits)
    then show ?thesis by (rule mkdir_exist_ok_made)
  qed
qed

lemma mkdir_parents_present:
  assumes "stat f p = Inr Dir"
  shows "mkdir_parents f p = (None, f)"
proof -
  from assms have "os_mkdir f p = Inl FileExistsError" and "is_dir f p = Inr True"
    by (simp_all add: os_mkdir_def is_dir_def)
  then show ?thesis
    by (simp add: mkdir_parents.simps [of f p])
qed

text \<open>Reading and writing a file.\<close>

lemma write_bytes_Inr:
  assumes "write_bytes f p b = Inr f'"
  shows "p \<noteq> [] \<and> f p \<noteq> Some Dir \<and> f' = f(p \<mapsto> File b) \<and> stat f' p = Inr (File b)"
proof (cases "stat f p")
  case (Inl e)
  with assms have a: "stat f p = Inl FileNotFoundError" and b: "stat f (parent p) = Inr Dir"
    and c: "f' = f(p \<mapsto> File b)"
    by (auto simp: write_bytes_def split: if_splits)
  from stat_missing [OF a b, of "File b"] c show ?thesis by simp
next
  case (Inr n)
  with assms obtain c where n: "n = File c" and f': "f' = f(p \<mapsto> File b)"
    by (cases n) (auto simp: write_bytes_def)
  from Inr n have len: "path_length p < PATH_MAX" and w: "walk f p = Inr (File c)"
    by (simp_all add: stat_Inr)
  from w have ne: "p \<noteq> []" by auto
  from walk_Inr [OF w ne] have wp: "walk f (parent p) = Inr Dir"
    and name: "length (last p) \<le> NAME_MAX" and at: "f p = Some (File c)"
    by simp_all
  from at have nd: "f p \<noteq> Some Dir" by simp
  from walk_upd_other [OF nd parent_neq [OF ne] wp]
  have "walk (f(p \<mapsto> File b)) (parent p) = Inr Dir" .
  from walk_step [OF ne this name] have "walk f' p = Inr (File b)"
    by (simp add: f')
  with len ne nd f' show ?thesis by (simp add: stat_Inr)
qed

lemma read_bytes_Inr: "read_bytes f p = Inr b \<longleftrightarrow> stat f p = Inr (File b)"
  by (auto simp: read_bytes_def split: sum.splits node.splits)

lemma read_bytes_written: "write_bytes f p b = Inr f' \<Longrightarrow> read_bytes f' p = Inr b"
  by (simp add: read_bytes_Inr write_bytes_Inr)

lemma mkdir_parents_read:
  "mkdir_parents f p = (r, f') \<Longrightarrow> read_bytes f q = Inr b \<Longrightarrow> read_bytes f' q = Inr b"
  by (auto simp: read_bytes_Inr dest: mkdir_parents_le stat_mono)

text \<open>
  Where nothing is stored and no name is too long, the path is reported as not
  existing: no error of the resolution is raised.
\<close>

lemma walk_error_ignored:
  "\<forall>s \<in> set p. length s \<le> NAME_MAX \<Longrightarrow> walk f p = Inl e \<Longrightarrow> ignore_error e"
proof (induction f p arbitrary: e rule: walk.induct)
  case (1 f p)
  from "1.prems"(2) have ne: "p \<noteq> []" by auto
  then have last: "length (last p) \<le> NAME_MAX"
    using "1.prems"(1) by simp
  have but: "\<forall>s \<in> set (parent p). length s \<le> NAME_MAX"
    using "1.prems"(1) by (auto simp: parent_def dest: in_set_butlastD)
  show ?case
  proof (cases "walk f (parent p)")
    case (Inl e')
    with "1.prems"(2) ne have "e = e'"
      by (simp add: walk.simps [of f p])
    with "1.IH" [OF ne but Inl] show ?thesis by simp
  next
    case (Inr n)
    with "1.prems"(2) ne last show ?thesis
      by (cases n)
         (auto simp: walk.simps [of f p] ignore_error_def split: option.splits)
  qed
qed

lemma path_exists_absent:
  assumes "f p = None" and "p \<noteq> []" and "\<not> too_long p"
  shows "path_exists f p = Inr False"
proof -
  from assms(3) have len: "path_length p < PATH_MAX"
    and names: "\<forall>s \<in> set p. length s \<le> NAME_MAX"
    by (auto simp: too_long_def not_less)
  show ?thesis
  proof (cases "walk f p")
    case (Inl e)
    from walk_error_ignored [OF names Inl] Inl len show ?thesis
      by (simp add: path_exists_def stat_def)
  next
    case (Inr n)
    from walk_Inr [OF Inr assms(2)] assms(1) show ?thesis by simp
  qed
qed

subsection \<open>Joining paths\<close>

lemma split_slash_no_slash: "CHR ''/'' \<notin> set s \<Longrightarrow> split_slash s = [s]"
  by (induction s) auto

lemma joinpath_segment: "segment s \<Longrightarrow> joinpath p s = p @ [s]"
  by (cases s) (auto simp: segment_def joinpath_def parts_def split_slash_no_slash)

lemma get_state_path_segments:
  "segment key \<Longrightarrow> segment vers \<Longrightarrow> get_state_path base_dir key vers = base_dir @ [key, vers]"
  by (simp add: get_state_path_def joinpath_segment)

subsection \<open>The steps of an upload\<close>

lemma write_blob_None:
  assumes "write_blob base_dir key vers path f = (None, f2)"
  shows "\<exists>f1 b. mkdir_parents f (parent (get_state_path base_dir key vers)) = (None, f1)
           \<and> read_bytes f1 path = Inr b
           \<and> write_bytes f1 (get_state_path base_dir key vers) b = Inr f2"
proof -
  let ?remote = "get_state_path base_dir key vers"
  obtain r1 f1 where m: "mkdir_parents f (parent ?remote) = (r1, f1)"
    by (cases "mkdir_parents f (parent ?remote)")
  with assms show ?thesis
    by (cases r1) (auto simp: write_blob_def Let_def split: sum.splits)
qed

lemma write_blob_other:
  assumes "segment k" and "segment v" and "segment key" and "segment vers"
    and "(k, v) \<noteq> (key, vers)"
  shows "snd (write_blob base_dir k v path f) (base_dir @ [key, vers]) = f (base_dir @ [key, vers])"
proof -
  let ?q = "base_dir @ [key, vers]"
  have remote: "get_state_path base_dir k v = base_dir @ [k, v]"
    using assms(1,2) by (rule get_state_path_segments)
  obtain r1 f1 where m: "mkdir_parents f (base_dir @ [k]) = (r1, f1)"
    by (cases "mkdir_parents f (base_dir @ [k])")
  have f1: "f1 ?q = f ?q"
    by (rule mkdir_parents_longer [OF m]) simp
  have "f2 ?q = f1 ?q" if "write_bytes f1 (base_dir @ [k, v]) b = Inr f2" for b f2
    using write_bytes_Inr [OF that] assms(5) by auto
  with f1 m show ?thesis
    by (cases r1)
       (auto simp: write_blob_def remote parent_def butlast_append split: sum.splits)
qed

lemma upload_None:
  assumes "upload_state_from_path ser deser base_dir key vers path w = (None, w1)"
  shows "\<exists>f2. write_blob base_dir key vers path (fs w) = (None, f2)
           \<and> set_latest_version ser deser key vers (w\<lparr>fs := f2\<rparr>) = (None, w1)"
proof -
  obtain r f2 where b: "write_blob base_dir key vers path (fs w) = (r, f2)"
    by (cases "write_blob base_dir key vers path (fs w)")
  with assms show ?thesis
    by (cases r) (auto simp: upload_state_from_path_def)
qed

lemma set_latest_version_fs: "fs (snd (set_latest_version ser deser key v w)) = fs w"
  by (auto simp: set_latest_version_def set_cursor_values_def split: sum.splits)

lemma upload_fs:
  "fs (snd (upload_state_from_path ser deser base_dir k v path w))
     = snd (write_blob base_dir k v path (fs w))"
proof -
  obtain r f2 where b: "write_blob base_dir k v path (fs w) = (r, f2)"
    by (cases "write_blob base_dir k v path (fs w)")
  show ?thesis
    using set_latest_version_fs [of ser deser k v "w\<lparr>fs := f2\<rparr>"]
    by (cases r) (simp_all add: upload_state_from_path_def b)
qed

lemma uploads_other:
  assumes "segment key" and "segment vers"
    and "\<forall>(k, v, p) \<in> set us. segment k \<and> segment v \<and> (k, v) \<noteq> (key, vers)"
  shows "fs (uploads ser deser base_dir us w) (base_dir @ [key, vers]) = fs w (base_dir @ [key, vers])"
  using assms(3)
proof (induction us arbitrary: w)
  case Nil
  show ?case by simp
next
  case (Cons u us)
  obtain k v p where u: "u = (k, v, p)" by (cases u)
  with Cons.prems have "segment k" and "segment v" and "(k, v) \<noteq> (key, vers)" by simp_all
  from write_blob_other [OF this(1,2) assms(1,2) this(3)] Cons show ?case
    by (simp add: u upload_fs)
qed

subsection \<open>Reading and updating the latest-version record\<close>

lemma get_latest_cases:
  "get_latest_defs_state_info deser w =
     (case cursors w INFO_KEY of None \<Rightarrow> Inr None
      | Some r \<Rightarrow> (case deser r of Inl e \<Rightarrow> Inl e | Inr info \<Rightarrow> Inr (Some info)))"
  by (simp add: get_latest_defs_state_info_def get_cursor_values_def)

lemma get_latest_fs_update [simp]:
  "get_latest_defs_state_info deser (w\<lparr>fs := f\<rparr>) = get_latest_defs_state_info deser w"
  by (simp add: get_latest_cases)

lemma latest_version_fs_update [simp]:
  "latest_version deser (w\<lparr>fs := f\<rparr>) k = latest_version deser w k"
  by (simp add: latest_version_def)

lemma set_latest_version_ok:
  assumes rt: "\<forall>info. deser (ser info) = Inr info"
    and prior: "get_latest_defs_state_info deser w = Inr prior"
  shows "set_latest_version ser deser key v w
           = (None, set_cursor_values [INFO_KEY \<mapsto> ser (add_version prior key v)] w)"
    and "get_latest_defs_state_info deser
           (set_cursor_values [INFO_KEY \<mapsto> ser (add_version prior key v)] w)
           = Inr (Some (add_version prior key v))"
  using assms
  by (simp_all add: set_latest_version_def get_updated_defs_state_info_def
      set_cursor_values_def get_latest_cases)

lemma set_latest_version_None:
  assumes "set_latest_version ser deser key v w = (None, w1)"
  shows "\<exists>prior. get_latest_defs_state_info deser w = Inr prior"
  using assms
  by (cases "get_latest_defs_state_info deser w")
     (auto simp: set_latest_version_def get_updated_defs_state_info_def)

lemma latest_version_add:
  "get_latest_defs_state_info deser w = Inr (Some (add_version prior key v)) \<Longrightarrow>
     latest_version deser w k =
       (if k = key then Inr (Some v)
        else case prior of None \<Rightarrow> Inr None | Some info \<Rightarrow> Inr (map_option version (info_mapping info k)))"
  by (cases prior) (auto simp: latest_version_def add_version_def)

lemma set_latest_version_publishes:
  assumes rt: "\<forall>info. deser (ser info) = Inr info"
    and sl: "set_latest_version ser deser key v w = (None, w1)"
  shows "latest_version deser w1 key = Inr (Some v)"
proof -
  from set_latest_version_None [OF sl] obtain prior where
    p: "get_latest_defs_state_info deser w = Inr prior" ..
  from set_latest_version_ok [OF rt p, of key v] sl
  have "get_latest_defs_state_info deser w1 = Inr (Some (add_version prior key v))" by simp
  then show ?thesis by (simp add: latest_version_add)
qed

lemma set_latest_version_keeps:
  assumes rt: "\<forall>info. deser (ser info) = Inr info"
    and other: "k \<noteq> key"
    and hv: "latest_version deser w k = Inr (Some v0)"
  shows "latest_version deser (snd (set_latest_version ser deser key v w)) k = Inr (Some v0)"
proof -
  from hv obtain info where p: "get_latest_defs_state_info deser w = Inr (Some info)"
    by (auto simp: latest_version_def split: sum.splits option.splits)
  from set_latest_version_ok [OF rt p, of key v]
  have "get_latest_defs_state_info deser (snd (set_latest_version ser deser key v w))
          = Inr (Some (add_version (Some info) key v))" by simp
  from latest_version_add [OF this, of k] other hv p show ?thesis
    by (simp add: latest_version_def)
qed

lemma upload_keeps:
  assumes rt: "\<forall>info. deser (ser info) = Inr info"
    and other: "k \<noteq> key"
    and hv: "latest_version deser w k = Inr (Some v0)"
  shows "latest_version deser (snd (upload_state_from_path ser deser base_dir key v path w)) k
           = Inr (Some v0)"
proof -
  obtain r f2 where b: "write_blob base_dir key v path (fs w) = (r, f2)"
    by (cases "write_blob base_dir key v path (fs w)")
  show ?thesis
  proof (cases r)
    case None
    from hv have "latest_version deser (w\<lparr>fs := f2\<rparr>) k = Inr (Some v0)" by simp
    from set_latest_version_keeps [OF rt other this] show ?thesis
      by (simp add: upload_state_from_path_def b None)
  next
    case (Some e)
    with hv show ?thesis
      by (simp add: upload_state_from_path_def b)
  qed
qed

text \<open>The definitions that evaluate the concrete worlds and components.\<close>

lemmas eval_defs =
  upload_state_from_path_def write_blob_def mkdir_parents.simps mkdir_exist_ok_def os_mkdir_def
  write_bytes_def read_bytes_def parent_def is_dir_def path_exists_def ignore_error_def
  walk.simps stat_def NAME_MAX_def PATH_MAX_def path_length_def too_long_def
  get_state_path_def joinpath_def parts_def set_latest_version_def get_updated_defs_state_info_def add_version_def
  get_latest_defs_state_info_def get_cursor_values_def set_cursor_values_def INFO_KEY_def
  download_state_to_path_def latest_version_def state_not_found_def
  example_ser_def example_deser_def example_world_def example_world_uploaded_def
  example_world_corrupt_def first_pending_def example_specs_def example_components_def
  example_same_key_def example_masked_specs_def example_masked_def truthy_def
  state_backed_component_def refresh_component_state_def
  refresh_components_with_display_def refresh_component_def initial_statuses_def
  completion_order.simps status_of_outcome_def Let_def

lemma example_codec: "\<forall>info. example_deser (example_ser info) = Inr info"
  by (simp add: example_ser_def example_deser_def)

lemma example_upload:
  "upload_state_from_path example_ser example_deser [''base''] ''k'' ''v1'' [''tmp'', ''state'']
     example_world = (None, example_world_uploaded)"
  by (simp add: eval_defs)

text \<open>
  A version whose name is longer than \<^verbatim>\<open>NAME_MAX\<close>, below the directory of a key that
  exists: nothing is stored at the path of the blob, and the test for existence does
  not answer but raises \<^verbatim>\<open>ENAMETOOLONG\<close>, and with it the download.
\<close>

lemma download_name_too_long:
  "segment (replicate 256 (CHR ''v''))
   \<and> fs example_world_uploaded (get_state_path [''base''] ''k'' (replicate 256 (CHR ''v''))) = None
   \<and> download_state_to_path [''base''] ''k'' (replicate 256 (CHR ''v'')) [''tmp'', ''copy'']
        example_world_uploaded
       = (Some (OSError ''ENAMETOOLONG''), example_world_uploaded)"
proof -
  let ?v = "replicate 256 (CHR ''v'')"
  have other: "?v \<noteq> s" if "length s < 256" for s
    using that by auto
  have seg: "segment ?v"
    unfolding segment_def using other [of "[]"] other [of "''.''"] other [of "''..''"]
    by simp
  have k: "segment ''k''" by (simp add: segment_def)
  have remote: "get_state_path [''base''] ''k'' ?v = [''base'', ''k'', ?v]"
    using get_state_path_segments [OF k seg, of "[''base'']"] by simp
  have v1: "?v \<noteq> ''v1''" using other [of "''v1''"] by simp
  have "(''k'', ''v1'') \<noteq> (''k'', ?v)" using v1 by simp
  from write_blob_other [OF k _ k seg this, of "[''base'']" "[''tmp'', ''state'']"
      "fs example_world"]
  have "fs example_world_uploaded [''base'', ''k'', ?v] = fs example_world [''base'', ''k'', ?v]"
    by (simp add: example_world_uploaded_def upload_fs segment_def)
  then have none: "fs example_world_uploaded [''base'', ''k'', ?v] = None"
    by (simp add: example_world_def)
  have "walk (fs example_world_uploaded) [''base'', ''k''] = Inr Dir"
    by (simp add: eval_defs)
  then have "walk (fs example_world_uploaded) [''base'', ''k'', ?v] = Inl (OSError ''ENAMETOOLONG'')"
    by (simp add: walk.simps [of _ "[''base'', ''k'', ?v]"] parent_def NAME_MAX_def)
  then have "path_exists (fs example_world_uploaded) [''base'', ''k'', ?v]
               = Inl (OSError ''ENAMETOOLONG'')"
    by (simp add: path_exists_def stat_def path_length_def PATH_MAX_def ignore_error_def)
  with seg none remote show ?thesis
    by (simp add: download_state_to_path_def)
qed

section \<open>Claims about the storage\<close>

text \<open>
  C1, as amended. If the blob-write phase of
  \<^verbatim>\<open>upload_state_from_path(key, version, path)\<close> raises, the upload raises that
  exception and \<^verbatim>\<open>set_latest_version\<close> is not invoked: whatever the serializer is, the
  world left behind is the one the blob-write phase left, the cursor table is untouched,
  and \<^verbatim>\<open>get_latest_defs_state_info()\<close> returns afterwards what it returned before. It
  therefore maps the key to that version only if it did so before the call.
\<close>

theorem upload_state_from_path_blob_failure:
  "fst (write_blob base_dir key vers path (fs w)) = Some e \<Longrightarrow>
     upload_state_from_path ser deser base_dir key vers path w
       = (Some e, w\<lparr>fs := snd (write_blob base_dir key vers path (fs w))\<rparr>)
     \<and> cursors (snd (upload_state_from_path ser deser base_dir key vers path w)) = cursors w
     \<and> get_latest_defs_state_info deser
          (snd (upload_state_from_path ser deser base_dir key vers path w))
         = get_latest_defs_state_info deser w"
  by (cases "write_blob base_dir key vers path (fs w)")
     (simp add: upload_state_from_path_def)

text \<open>
  An instance: in the world after one upload, an upload of a new version from a source
  file that does not exist raises in the blob-write phase and leaves the cursor table
  as it was.
\<close>

theorem upload_state_from_path_blob_failure_witness:
  "fst (write_blob [''base''] ''k'' ''v2'' [''tmp'', ''missing''] (fs example_world_uploaded))
     = Some FileNotFoundError
   \<and> fst (upload_state_from_path example_ser example_deser [''base''] ''k'' ''v2''
            [''tmp'', ''missing''] example_world_uploaded) = Some FileNotFoundError
   \<and> cursors (snd (upload_state_from_path example_ser example_deser [''base''] ''k'' ''v2''
               [''tmp'', ''missing''] example_world_uploaded)) = cursors example_world_uploaded
   \<and> latest_version example_deser
        (snd (upload_state_from_path example_ser example_deser [''base''] ''k'' ''v2''
               [''tmp'', ''missing''] example_world_uploaded)) ''k'' = Inr (Some ''v1'')"
proof -
  have h: "fst (write_blob [''base''] ''k'' ''v2'' [''tmp'', ''missing''] (fs example_world_uploaded))
     = Some FileNotFoundError"
    by (simp add: eval_defs)
  have l: "latest_version example_deser example_world_uploaded ''k'' = Inr (Some ''v1'')"
    by (simp add: eval_defs)
  from upload_state_from_path_blob_failure [OF h, of example_ser example_deser] h l
  show ?thesis by (simp add: latest_version_def)
qed

text \<open>
  The claim as it is written fails when the version was published before: the version
  \<^verbatim>\<open>v1\<close> of the key \<^verbatim>\<open>k\<close> is uploaded once from an existing file; a second upload of
  the same key and version from a missing file raises in the blob-write phase, and the
  record afterwards still maps \<^verbatim>\<open>k\<close> to \<^verbatim>\<open>v1\<close>.
\<close>

theorem failed_upload_entry_counterexample:
  "fst (write_blob [''base''] ''k'' ''v1'' [''tmp'', ''missing''] (fs example_world_uploaded))
     = Some FileNotFoundError
   \<and> fst (upload_state_from_path example_ser example_deser [''base''] ''k'' ''v1''
            [''tmp'', ''missing''] example_world_uploaded) = Some FileNotFoundError
   \<and> latest_version example_deser
        (snd (upload_state_from_path example_ser example_deser [''base''] ''k'' ''v1''
               [''tmp'', ''missing''] example_world_uploaded)) ''k'' = Inr (Some ''v1'')"
  by (simp add: eval_defs)

text \<open>
  C3. For every prior state of the latest-version record (absent, or any record) and
  every call \<^verbatim>\<open>set_latest_version(key, version)\<close> that runs on its own, the call returns
  normally, the resulting record maps the key to the version and maps every other key
  to exactly the entry it had before; the file system is not touched. The serializer is
  assumed to round-trip.
\<close>

theorem set_latest_version_frame:
  assumes rt: "\<forall>info. deser (ser info) = Inr info"
    and prior: "get_latest_defs_state_info deser w = Inr prior"
  shows "\<exists>w' info'.
           set_latest_version ser deser key v w = (None, w')
           \<and> get_latest_defs_state_info deser w' = Inr (Some info')
           \<and> info_mapping info' key = Some \<lparr>version = v\<rparr>
           \<and> (\<forall>k. k \<noteq> key \<longrightarrow>
                 info_mapping info' k
                   = (case prior of None \<Rightarrow> None | Some info \<Rightarrow> info_mapping info k))
           \<and> fs w' = fs w"
  using assms
  by (cases prior)
     (auto simp: set_latest_version_def get_updated_defs_state_info_def add_version_def
        set_cursor_values_def get_latest_cases)

text \<open>
  An instance: the record maps \<^verbatim>\<open>k\<close> to \<^verbatim>\<open>v1\<close>; after \<^verbatim>\<open>set_latest_version("other", "v9")\<close>
  it maps \<^verbatim>\<open>other\<close> to \<^verbatim>\<open>v9\<close> and still maps \<^verbatim>\<open>k\<close> to \<^verbatim>\<open>v1\<close>.
\<close>

theorem set_latest_version_frame_witness:
  "get_latest_defs_state_info example_deser example_world_uploaded
     = Inr (Some \<lparr>info_mapping = [''k'' \<mapsto> \<lparr>version = ''v1''\<rparr>]\<rparr>)
   \<and> fst (set_latest_version example_ser example_deser ''other'' ''v9'' example_world_uploaded)
       = None
   \<and> latest_version example_deser
        (snd (set_latest_version example_ser example_deser ''other'' ''v9''
               example_world_uploaded)) ''other'' = Inr (Some ''v9'')
   \<and> latest_version example_deser
        (snd (set_latest_version example_ser example_deser ''other'' ''v9''
               example_world_uploaded)) ''k'' = Inr (Some ''v1'')"
proof -
  have p: "get_latest_defs_state_info example_deser example_world_uploaded
     = Inr (Some \<lparr>info_mapping = [''k'' \<mapsto> \<lparr>version = ''v1''\<rparr>]\<rparr>)"
    by (simp add: eval_defs)
  from set_latest_version_frame [where ser = example_ser and deser = example_deser,
      OF example_codec p, of "''other''" "''v9''"]
  obtain w' info' where
    "set_latest_version example_ser example_deser ''other'' ''v9'' example_world_uploaded
       = (None, w')"
    and "get_latest_defs_state_info example_deser w' = Inr (Some info')"
    and "info_mapping info' ''other'' = Some \<lparr>version = ''v9''\<rparr>"
    and "\<forall>k. k \<noteq> ''other'' \<longrightarrow>
           info_mapping info' k = [''k'' \<mapsto> \<lparr>version = ''v1''\<rparr>] k"
    by auto
  with p show ?thesis by (simp add: latest_version_def)
qed

text \<open>
  C5. For every key, version and byte content: if the source file holds the bytes and
  \<^verbatim>\<open>upload_state_from_path(key, version, source)\<close> returns, then
  \<^verbatim>\<open>download_state_to_path(key, version, destination)\<close> finds the blob and does what
  writing exactly these bytes to the destination does: it raises only if that write
  raises, and otherwise the destination file holds the original bytes.
\<close>

theorem upload_then_download_roundtrip:
  assumes src: "read_bytes (fs w) path = Inr b"
    and up: "upload_state_from_path ser deser base_dir key vers path w = (None, w1)"
  shows "download_state_to_path base_dir key vers dest w1 =
           (case write_bytes (fs w1) dest b of
              Inl e \<Rightarrow> (Some e, w1)
            | Inr f' \<Rightarrow> (None, w1\<lparr>fs := f'\<rparr>))
         \<and> (\<forall>f'. write_bytes (fs w1) dest b = Inr f' \<longrightarrow> read_bytes f' dest = Inr b)"
proof -
  from upload_None [OF up] obtain f2 where
    blob: "write_blob base_dir key vers path (fs w) = (None, f2)" and
    sl: "set_latest_version ser deser key vers (w\<lparr>fs := f2\<rparr>) = (None, w1)"
    by blast
  let ?remote = "get_state_path base_dir key vers"
  from write_blob_None [OF blob] obtain f1 b' where
    m: "mkdir_parents (fs w) (parent ?remote) = (None, f1)" and
    r: "read_bytes f1 path = Inr b'" and
    wr: "write_bytes f1 ?remote b' = Inr f2"
    by blast
  from mkdir_parents_read [OF m src] r have "b' = b" by simp
  with wr have "read_bytes f2 ?remote = Inr b"
    by (simp add: read_bytes_written)
  moreover have "fs w1 = f2"
    using set_latest_version_fs [of ser deser key vers "w\<lparr>fs := f2\<rparr>"] sl by simp
  ultimately have rd: "read_bytes (fs w1) ?remote = Inr b"
    by simp
  then have ex: "path_exists (fs w1) (get_state_path base_dir key vers) = Inr True"
    by (simp add: path_exists_def read_bytes_Inr)
  show ?thesis
    by (simp add: download_state_to_path_def ex rd read_bytes_written split: sum.splits)
qed

text \<open>
  An instance: the file \<^verbatim>\<open>/tmp/state\<close> holds \<^verbatim>\<open>abc\<close>; after the upload as
  \<^verbatim>\<open>(k, v1)\<close> the download to \<^verbatim>\<open>/tmp/copy\<close> returns and the copy holds \<^verbatim>\<open>abc\<close>.
\<close>

theorem upload_then_download_roundtrip_witness:
  "read_bytes (fs example_world) [''tmp'', ''state''] = Inr ''abc''
   \<and> upload_state_from_path example_ser example_deser [''base''] ''k'' ''v1''
        [''tmp'', ''state''] example_world = (None, example_world_uploaded)
   \<and> fst (download_state_to_path [''base''] ''k'' ''v1'' [''tmp'', ''copy'']
            example_world_uploaded) = None
   \<and> read_bytes
        (fs (snd (download_state_to_path [''base''] ''k'' ''v1'' [''tmp'', ''copy'']
                   example_world_uploaded))) [''tmp'', ''copy''] = Inr ''abc''"
proof -
  have src: "read_bytes (fs example_world) [''tmp'', ''state''] = Inr ''abc''"
    by (simp add: eval_defs)
  have wr: "write_bytes (fs example_world_uploaded) [''tmp'', ''copy''] ''abc''
              = Inr ((fs example_world_uploaded)([''tmp'', ''copy''] \<mapsto> File ''abc''))"
    by (simp add: eval_defs)
  from upload_then_download_roundtrip [OF src example_upload,
      where dest = "[''tmp'', ''copy'']"]
    src example_upload wr
  show ?thesis by simp
qed

text \<open>
  C6, as amended. Let the key and the version be single path segments, let the path of
  the blob be within the limits of the file system (no name longer than \<^verbatim>\<open>NAME_MAX\<close>,
  the whole path shorter than \<^verbatim>\<open>PATH_MAX\<close>), and let nothing be stored and nothing be
  uploaded at that exact key and version, whatever is uploaded under other keys or
  under other versions of the same key, those being single path segments as well. Then
  \<^verbatim>\<open>download_state_to_path(key, version, destination)\<close> raises the state-not-found error
  (the \<^verbatim>\<open>ValueError\<close> "No state found for key ... and version ...") and leaves the world,
  and so the destination path, as it was.
\<close>

theorem download_state_to_path_never_uploaded:
  assumes key: "segment key" and vers: "segment vers"
    and limits: "\<not> too_long (get_state_path base_dir key vers)"
    and absent: "fs w (get_state_path base_dir key vers) = None"
    and never: "\<forall>(k, v, p) \<in> set us. segment k \<and> segment v \<and> (k, v) \<noteq> (key, vers)"
  shows "download_state_to_path base_dir key vers dest (uploads ser deser base_dir us w)
           = (Some (state_not_found key vers), uploads ser deser base_dir us w)"
proof -
  let ?remote = "get_state_path base_dir key vers"
  have remote: "?remote = base_dir @ [key, vers]"
    using key vers by (rule get_state_path_segments)
  from uploads_other [OF key vers never, of ser deser base_dir w] absent
  have "fs (uploads ser deser base_dir us w) ?remote = None"
    by (simp add: remote)
  moreover have "?remote \<noteq> []"
    by (simp add: remote)
  ultimately have "path_exists (fs (uploads ser deser base_dir us w)) ?remote = Inr False"
    using limits by (rule path_exists_absent)
  then show ?thesis
    by (simp add: download_state_to_path_def)
qed

text \<open>
  An instance: only the version \<^verbatim>\<open>v1\<close> of the key \<^verbatim>\<open>k\<close> is uploaded; the download of the
  version \<^verbatim>\<open>v2\<close> of the same key raises and creates nothing at the destination.
\<close>

theorem download_state_to_path_never_uploaded_witness:
  "segment ''k'' \<and> segment ''v1'' \<and> segment ''v2''
   \<and> fst (download_state_to_path [''base''] ''k'' ''v2'' [''tmp'', ''copy'']
          (uploads example_ser example_deser [''base'']
             [(''k'', ''v1'', [''tmp'', ''state''])] example_world))
     = Some (ValueError ''No state found for key k and version v2'')
   \<and> fs (snd (download_state_to_path [''base''] ''k'' ''v2'' [''tmp'', ''copy'']
          (uploads example_ser example_deser [''base'']
             [(''k'', ''v1'', [''tmp'', ''state''])] example_world))) [''tmp'', ''copy''] = None
   \<and> read_bytes (fs (uploads example_ser example_deser [''base'']
             [(''k'', ''v1'', [''tmp'', ''state''])] example_world)) [''base'', ''k'', ''v1'']
       = Inr ''abc''"
proof -
  have seg: "segment ''k''" "segment ''v1''" "segment ''v2''"
    by (simp_all add: segment_def)
  have limits: "\<not> too_long (get_state_path [''base''] ''k'' ''v2'')"
    by (simp add: eval_defs)
  have absent: "fs example_world (get_state_path [''base''] ''k'' ''v2'') = None"
    by (simp add: eval_defs)
  have never: "\<forall>(k, v, p) \<in> set [(''k'', ''v1'', [''tmp'', ''state''])].
                 segment k \<and> segment v \<and> (k, v) \<noteq> (''k'', ''v2'')"
    using seg by simp
  have u: "uploads example_ser example_deser [''base'']
             [(''k'', ''v1'', [''tmp'', ''state''])] example_world = example_world_uploaded"
    by (simp add: example_upload)
  have "fs example_world_uploaded [''tmp'', ''copy''] = None"
    and "read_bytes (fs example_world_uploaded) [''base'', ''k'', ''v1''] = Inr ''abc''"
    by (simp_all add: eval_defs)
  with download_state_to_path_never_uploaded [OF seg(1) seg(3) limits absent never,
      where ser = example_ser and deser = example_deser and dest = "[''tmp'', ''copy'']"] u seg
  show ?thesis by (simp add: state_not_found_def)
qed

text \<open>
  The claim as it is written fails for a version that is not a path segment: only the
  version \<^verbatim>\<open>v1\<close> of the key \<^verbatim>\<open>k\<close> is uploaded, and nothing exists below the base
  directory before. The path of the key \<^verbatim>\<open>k\<close> and the empty version is the directory
  of the key, which exists after the upload, so the download passes the test for
  existence and raises \<^verbatim>\<open>IsADirectoryError\<close> when it reads, not the state-not-found
  error.
\<close>

theorem download_empty_version_counterexample:
  "fs example_world (get_state_path [''base''] ''k'' []) = None
   \<and> (''k'', ''v1'') \<noteq> (''k'', [])
   \<and> fst (download_state_to_path [''base''] ''k'' [] [''tmp'', ''copy'']
          (uploads example_ser example_deser [''base'']
             [(''k'', ''v1'', [''tmp'', ''state''])] example_world))
       = Some IsADirectoryError
   \<and> state_not_found ''k'' [] \<noteq> IsADirectoryError"
  by (simp add: eval_defs example_upload [unfolded example_world_uploaded_def])

text \<open>
  C7. \<^verbatim>\<open>get_latest_defs_state_info()\<close> returns \<^verbatim>\<open>None\<close> exactly when nothing is stored
  under the fixed key of the cursor table; if a value is stored there and cannot be
  decoded, the call raises the decoder's error instead of returning \<^verbatim>\<open>None\<close> or a
  record; and once \<^verbatim>\<open>set_latest_version\<close> has returned, the result is not \<^verbatim>\<open>None\<close>
  any more.
\<close>

theorem get_latest_defs_state_info_absent_or_corrupt:
  "(get_latest_defs_state_info deser w = Inr None \<longleftrightarrow> cursors w INFO_KEY = None)
   \<and> (\<forall>r e. cursors w INFO_KEY = Some r \<and> deser r = Inl e
         \<longrightarrow> get_latest_defs_state_info deser w = Inl e)
   \<and> (fst (set_latest_version ser deser key v w) = None
         \<longrightarrow> get_latest_defs_state_info deser (snd (set_latest_version ser deser key v w))
               \<noteq> Inr None)"
  by (auto simp: get_latest_cases set_latest_version_def get_updated_defs_state_info_def
      set_cursor_values_def split: option.splits sum.splits)

text \<open>
  An instance: with nothing stored the result is \<^verbatim>\<open>None\<close>; with a corrupt value stored
  the call raises; after an upload the result is a record.
\<close>

theorem get_latest_defs_state_info_absent_or_corrupt_witness:
  "cursors example_world INFO_KEY = None
   \<and> get_latest_defs_state_info example_deser example_world = Inr None
   \<and> cursors example_world_corrupt INFO_KEY = Some None
   \<and> example_deser None = Inl (DeserializationError ''corrupt'')
   \<and> get_latest_defs_state_info example_deser example_world_corrupt
       = Inl (DeserializationError ''corrupt'')
   \<and> fst (set_latest_version example_ser example_deser ''k'' ''v1'' example_world) = None
   \<and> get_latest_defs_state_info example_deser
        (snd (set_latest_version example_ser example_deser ''k'' ''v1'' example_world))
       \<noteq> Inr None"
proof -
  have a: "cursors example_world INFO_KEY = None"
    by (simp add: example_world_def)
  have c: "cursors example_world_corrupt INFO_KEY = Some None"
    by (simp add: example_world_corrupt_def)
  have d: "example_deser None = Inl (DeserializationError ''corrupt'')"
    by (simp add: example_deser_def)
  have s: "fst (set_latest_version example_ser example_deser ''k'' ''v1'' example_world) = None"
    by (simp add: eval_defs)
  from get_latest_defs_state_info_absent_or_corrupt
         [of example_deser example_world example_ser "''k''" "''v1''"]
       get_latest_defs_state_info_absent_or_corrupt
         [of example_deser example_world_corrupt example_ser "''k''" "''v1''"]
       a c d s
  show ?thesis by simp
qed

text \<open>
  C8. For every key and version: if \<^verbatim>\<open>upload_state_from_path(key, version, path)\<close> has
  returned, then performing the same upload a second time returns as well, although the
  blob exists already, and the latest-version record maps the key to that same version
  after the first upload and after the second. The serializer is assumed to round-trip.
\<close>

theorem upload_twice_same_version:
  assumes rt: "\<forall>info. deser (ser info) = Inr info"
    and up: "upload_state_from_path ser deser base_dir key vers path w = (None, w1)"
  shows "\<exists>w2. upload_state_from_path ser deser base_dir key vers path w1 = (None, w2)
           \<and> latest_version deser w1 key = Inr (Some vers)
           \<and> latest_version deser w2 key = Inr (Some vers)"
proof -
  let ?remote = "get_state_path base_dir key vers"
  let ?p = "parent ?remote"
  from upload_None [OF up] obtain f2 where
    blob: "write_blob base_dir key vers path (fs w) = (None, f2)" and
    sl: "set_latest_version ser deser key vers (w\<lparr>fs := f2\<rparr>) = (None, w1)"
    by blast
  from write_blob_None [OF blob] obtain f1 b where
    m: "mkdir_parents (fs w) ?p = (None, f1)" and
    r: "read_bytes f1 path = Inr b" and
    wr: "write_bytes f1 ?remote b = Inr f2"
    by blast
  have fs1: "fs w1 = f2"
    using set_latest_version_fs [of ser deser key vers "w\<lparr>fs := f2\<rparr>"] sl by simp
  from write_bytes_Inr [OF wr] have ne: "?remote \<noteq> []" and f2: "f2 = f1(?remote \<mapsto> File b)"
    and nd: "f1 ?remote \<noteq> Some Dir" and st: "stat f2 ?remote = Inr (File b)"
    by blast+
  from mkdir_parents_made [OF m] have "stat f1 ?p = Inr Dir" .
  with nd parent_neq [OF ne] have "stat f2 ?p = Inr Dir"
    unfolding f2 by (intro stat_upd_other)
  then have m2: "mkdir_parents f2 ?p = (None, f2)"
    by (rule mkdir_parents_present)
  have r2: "read_bytes f2 path = Inr b"
  proof (cases "path = ?remote")
    case True
    with st show ?thesis by (simp add: read_bytes_Inr)
  next
    case False
    from r have "stat f1 path = Inr (File b)" by (simp add: read_bytes_Inr)
    with nd False have "stat f2 path = Inr (File b)"
      unfolding f2 by (intro stat_upd_other)
    then show ?thesis by (simp add: read_bytes_Inr)
  qed
  from st have "write_bytes f2 ?remote b = Inr (f2(?remote \<mapsto> File b))"
    by (simp add: write_bytes_def)
  then have wr2: "write_bytes f2 ?remote b = Inr f2"
    by (simp add: f2)
  have blob2: "write_blob base_dir key vers path (fs w1) = (None, f2)"
    by (simp add: write_blob_def fs1 m2 r2 wr2)
  from set_latest_version_publishes [OF rt sl]
  have e1: "latest_version deser w1 key = Inr (Some vers)" .
  then obtain info1 where g1: "get_latest_defs_state_info deser w1 = Inr (Some info1)"
    by (auto simp: latest_version_def split: sum.splits option.splits)
  define w2 where
    "w2 = set_cursor_values [INFO_KEY \<mapsto> ser (add_version (Some info1) key vers)] w1"
  from set_latest_version_ok(1) [OF rt g1, of key vers]
  have sl2: "set_latest_version ser deser key vers w1 = (None, w2)"
    by (simp add: w2_def)
  from set_latest_version_publishes [OF rt sl2]
  have e2: "latest_version deser w2 key = Inr (Some vers)" .
  have "w1\<lparr>fs := f2\<rparr> = w1" using fs1 by simp
  then have "upload_state_from_path ser deser base_dir key vers path w1 = (None, w2)"
    by (simp add: upload_state_from_path_def blob2 sl2)
  with e1 e2 show ?thesis by blast
qed

text \<open>
  An instance: the upload of \<^verbatim>\<open>(k, v1)\<close> is repeated in the world the first upload left;
  it returns and the record maps \<^verbatim>\<open>k\<close> to \<^verbatim>\<open>v1\<close>.
\<close>

theorem upload_twice_same_version_witness:
  "upload_state_from_path example_ser example_deser [''base''] ''k'' ''v1''
     [''tmp'', ''state''] example_world = (None, example_world_uploaded)
   \<and> fst (upload_state_from_path example_ser example_deser [''base''] ''k'' ''v1''
            [''tmp'', ''state''] example_world_uploaded) = None
   \<and> latest_version example_deser
        (snd (upload_state_from_path example_ser example_deser [''base''] ''k'' ''v1''
               [''tmp'', ''state''] example_world_uploaded)) ''k'' = Inr (Some ''v1'')"
proof -
  from upload_twice_same_version [OF example_codec example_upload]
  obtain w2 where
    "upload_state_from_path example_ser example_deser [''base''] ''k'' ''v1''
       [''tmp'', ''state''] example_world_uploaded = (None, w2)"
    and "latest_version example_deser w2 ''k'' = Inr (Some ''v1'')"
    by blast
  with example_upload show ?thesis by simp
qed

text \<open>
  \<^verbatim>\<open>set_latest_version\<close> reads the record, computes the new one and writes it, without a
  lock and without comparing on the write. Two calls for different keys that run one
  after the other leave both entries in the record. A write of a record that was
  computed from an earlier read puts every other key back to what that read saw, so it
  undoes what was written in between. Whether two concurrent calls can interleave
  between the read and the write is not a property of these functions.
\<close>

lemma set_latest_version_one_after_the_other:
  assumes rt: "\<forall>info. deser (ser info) = Inr info"
    and prior: "get_latest_defs_state_info deser w = Inr prior"
    and other: "k1 \<noteq> k2"
  shows "latest_version deser
           (snd (set_latest_version ser deser k2 v2
              (snd (set_latest_version ser deser k1 v1 w)))) k1 = Inr (Some v1)
         \<and> latest_version deser
           (snd (set_latest_version ser deser k2 v2
              (snd (set_latest_version ser deser k1 v1 w)))) k2 = Inr (Some v2)"
proof -
  obtain w1 where s1: "set_latest_version ser deser k1 v1 w = (None, w1)"
    using set_latest_version_ok(1) [OF rt prior] by blast
  from set_latest_version_publishes [OF rt s1]
  have l1: "latest_version deser w1 k1 = Inr (Some v1)" .
  then obtain info1 where g1: "get_latest_defs_state_info deser w1 = Inr (Some info1)"
    by (auto simp: latest_version_def split: sum.splits option.splits)
  obtain w2 where s2: "set_latest_version ser deser k2 v2 w1 = (None, w2)"
    using set_latest_version_ok(1) [OF rt g1] by blast
  from set_latest_version_publishes [OF rt s2]
  have "latest_version deser w2 k2 = Inr (Some v2)" .
  moreover from set_latest_version_keeps [OF rt other l1, where v = v2] s2
  have "latest_version deser w2 k1 = Inr (Some v1)" by simp
  ultimately show ?thesis by (simp add: s1 s2)
qed

lemma stale_write_restores_other_keys:
  assumes rt: "\<forall>info. deser (ser info) = Inr info"
    and other: "k1 \<noteq> k2"
  shows "latest_version deser
           (set_cursor_values [INFO_KEY \<mapsto> ser (add_version prior k2 v2)] w) k1
         = (case prior of
              None \<Rightarrow> Inr None
            | Some info \<Rightarrow> Inr (map_option version (info_mapping info k1)))"
proof -
  have "get_latest_defs_state_info deser
          (set_cursor_values [INFO_KEY \<mapsto> ser (add_version prior k2 v2)] w)
        = Inr (Some (add_version prior k2 v2))"
    using rt by (simp add: get_latest_cases set_cursor_values_def)
  from latest_version_add [OF this, of k1] other show ?thesis by simp
qed

section \<open>Properties of the refresh command\<close>

subsection \<open>The order of completion\<close>

lemma completion_order_Nil: "completion_order sched [] = []"
  by (simp add: completion_order.simps)

lemma mset_completion_order: "mset (completion_order sched xs) = mset xs"
proof (induction sched xs rule: completion_order.induct)
  case (1 sched pending)
  show ?case
  proof (cases "pending = []")
    case True
    then show ?thesis by (simp add: completion_order_Nil)
  next
    case False
    define i where "i = sched (length pending) mod length pending"
    from False have lt: "i < length pending" by (simp add: i_def)
    have "mset (completion_order sched (take i pending @ drop (Suc i) pending))
            = mset (take i pending @ drop (Suc i) pending)"
      using "1.IH" [OF False i_def] .
    moreover have "mset pending = mset (take i pending @ pending ! i # drop (Suc i) pending)"
      using id_take_nth_drop [OF lt] by simp
    ultimately show ?thesis
      using False by (simp add: completion_order.simps [of sched pending] i_def Let_def)
  qed
qed

lemma set_completion_order: "set (completion_order sched xs) = set xs"
  using mset_completion_order [of sched xs] by (rule mset_eq_setD)

lemma distinct_map_completion_order:
  "distinct (map g (completion_order sched xs)) = distinct (map g xs)"
proof -
  have "mset (map g (completion_order sched xs)) = mset (map g xs)"
    by (simp add: mset_completion_order)
  then show ?thesis by (rule mset_eq_imp_distinct_iff)
qed

lemma completion_order_map:
  "completion_order sched (map g xs) = map g (completion_order sched xs)"
proof (induction sched xs rule: completion_order.induct)
  case (1 sched pending)
  show ?case
  proof (cases "pending = []")
    case True
    then show ?thesis by (simp add: completion_order_Nil)
  next
    case False
    define i where "i = sched (length pending) mod length pending"
    from False have lt: "i < length pending" by (simp add: i_def)
    have "completion_order sched (map g (take i pending @ drop (Suc i) pending))
            = map g (completion_order sched (take i pending @ drop (Suc i) pending))"
      using "1.IH" [OF False i_def] .
    with False lt show ?thesis
      by (simp add: completion_order.simps [of sched pending]
          completion_order.simps [of sched "map g pending"] i_def Let_def take_map drop_map)
  qed
qed

text \<open>
  The order depends on the scheduler only at the numbers of pending coroutines that
  occur, and every permutation of the coroutines is the order of completion of some
  scheduler.
\<close>

lemma completion_order_cong:
  "(\<And>m. m \<le> length xs \<Longrightarrow> s1 m = s2 m) \<Longrightarrow> completion_order s1 xs = completion_order s2 xs"
proof (induction s1 xs rule: completion_order.induct)
  case (1 sched pending)
  show ?case
  proof (cases "pending = []")
    case True
    then show ?thesis by (simp add: completion_order_Nil)
  next
    case False
    define i where "i = sched (length pending) mod length pending"
    from False have lt: "i < length pending" by (simp add: i_def)
    have same: "s2 (length pending) mod length pending = i"
      using "1.prems" [of "length pending"] by (simp add: i_def)
    have "completion_order sched (take i pending @ drop (Suc i) pending)
            = completion_order s2 (take i pending @ drop (Suc i) pending)"
    proof (rule "1.IH" [OF False i_def])
      fix m
      assume "m \<le> length (take i pending @ drop (Suc i) pending)"
      with lt have "m \<le> length pending" by simp
      then show "sched m = s2 m" by (rule "1.prems")
    qed
    with False show ?thesis
      by (simp add: completion_order.simps [of sched pending]
          completion_order.simps [of s2 pending] same i_def [symmetric] Let_def)
  qed
qed

lemma completion_order_complete:
  "mset ys = mset xs \<Longrightarrow> \<exists>sched. completion_order sched xs = ys"
proof (induction ys arbitrary: xs)
  case Nil
  then show ?case by (simp add: completion_order_Nil)
next
  case (Cons y ys)
  from Cons.prems have "y \<in> set xs"
    by (metis list.set_intros(1) mset_eq_setD)
  then obtain i where i: "i < length xs" "xs ! i = y"
    by (auto simp: in_set_conv_nth)
  let ?rest = "take i xs @ drop (Suc i) xs"
  have "mset xs = mset ?rest + {#y#}"
  proof -
    have "mset xs = mset (take i xs @ y # drop (Suc i) xs)"
      using id_take_nth_drop [OF i(1)] i(2) by simp
    then show ?thesis by simp
  qed
  with Cons.prems have "mset ys = mset ?rest" by simp
  from Cons.IH [OF this] obtain s where s: "completion_order s ?rest = ys" ..
  define sched where "sched = s(length xs := i)"
  have "sched m = s m" if "m \<le> length ?rest" for m
  proof -
    from that i(1) have "m < length xs" by simp
    then show ?thesis by (simp add: sched_def)
  qed
  then have rest: "completion_order sched ?rest = completion_order s ?rest"
    by (rule completion_order_cong)
  have pick: "sched (length xs) mod length xs = i"
    using i(1) by (simp add: sched_def)
  from i(1) have "xs \<noteq> []" by auto
  then have "completion_order sched xs = xs ! i # completion_order sched ?rest"
    by (simp add: completion_order.simps [of sched xs] pick Let_def)
  with rest s i(2) have "completion_order sched xs = y # ys" by simp
  then show ?case by blast
qed

subsection \<open>The status map\<close>

lemma refresh_component_eq:
  "refresh_component c (st, w) =
     (AList.update (get_state_key c) (status_of_outcome (fst (refresh_state c w))) st,
      snd (refresh_state c w))"
  by (cases "refresh_state c w")
     (auto simp: refresh_component_def status_of_outcome_def split: option.splits)

lemma fold_refresh_world: "snd (fold refresh_component cs (st, w)) = run_world cs w"
  by (induction cs arbitrary: st w) (simp_all add: refresh_component_eq)

lemma fold_refresh_keys:
  "fst ` set (fst (fold refresh_component cs (st, w))) = get_state_key ` set cs \<union> fst ` set st"
  by (induction cs arbitrary: st w) (auto simp: refresh_component_eq dom_update)

lemma fold_refresh_distinct:
  "distinct (map fst st) \<Longrightarrow> distinct (map fst (fst (fold refresh_component cs (st, w))))"
  by (induction cs arbitrary: st w) (simp_all add: refresh_component_eq distinct_update)

lemma fold_refresh_map_of:
  "map_of (fst (fold refresh_component cs (st, w))) k =
     (case map_of (rev (run_outcomes cs w)) k of
        None \<Rightarrow> map_of st k
      | Some r \<Rightarrow> Some (status_of_outcome r))"
proof (induction cs arbitrary: st w)
  case Nil
  show ?case by simp
next
  case (Cons c cs)
  show ?case
    by (simp add: refresh_component_eq Cons.IH update_conv' map_add_def split: option.splits)
qed

lemma initial_statuses_keys: "fst ` set (initial_statuses cs) = get_state_key ` set cs"
proof -
  have "fst ` set (fold (\<lambda>c. AList.update (get_state_key c) v) cs d)
          = get_state_key ` set cs \<union> fst ` set d" for v :: ComponentStateRefreshStatus and d
    by (induction cs arbitrary: d) (auto simp: dom_update)
  then show ?thesis by (simp add: initial_statuses_def)
qed

lemma initial_statuses_distinct: "distinct (map fst (initial_statuses cs))"
proof -
  have "distinct (map fst d) \<Longrightarrow>
          distinct (map fst (fold (\<lambda>c. AList.update (get_state_key c) v) cs d))"
    for v :: ComponentStateRefreshStatus and d
    by (induction cs arbitrary: d) (simp_all add: distinct_update)
  then show ?thesis by (simp add: initial_statuses_def)
qed

lemma map_fst_run_outcomes: "map fst (run_outcomes cs w) = map get_state_key cs"
  by (induction cs arbitrary: w) simp_all

lemma run_outcomes_lookup:
  assumes "k \<in> get_state_key ` set cs"
  shows "\<exists>r. map_of (rev (run_outcomes cs w)) k = Some r"
proof -
  from assms have "k \<in> fst ` set (rev (run_outcomes cs w))"
    using map_fst_run_outcomes [of cs w] by (metis set_map set_rev)
  then show ?thesis
    by (cases "map_of (rev (run_outcomes cs w)) k") (auto simp: map_of_eq_None_iff)
qed

subsection \<open>What the command returns\<close>

lemma set_collect_errors:
  "set (collect_errors st)
     = {(k, e). \<exists>s. (k, s) \<in> set st \<and> status s = Error \<and> error s = Some e \<and> truthy e}"
  by (induction st rule: collect_errors.induct) (auto split: option.splits)

lemma refresh_component_state_echoed:
  "echoed (refresh_component_state sched comps w)
     = collect_errors (fst (refresh_components_with_display sched comps (initial_statuses comps) w))"
  by (simp add: refresh_component_state_def split: prod.splits list.splits)

lemma refresh_component_state_raised:
  "raised (refresh_component_state sched comps w)
     = (case echoed (refresh_component_state sched comps w) of [] \<Rightarrow> None
        | first # others \<Rightarrow> Some (snd first))"
  by (simp add: refresh_component_state_def split: prod.splits list.splits)

lemma refresh_component_state_final:
  "final (refresh_component_state sched comps w) = run_world (completion_order sched comps) w"
proof -
  obtain st w' where f:
    "fold refresh_component (completion_order sched comps) (initial_statuses comps, w) = (st, w')"
    by (cases "fold refresh_component (completion_order sched comps) (initial_statuses comps, w)")
  with fold_refresh_world [of "completion_order sched comps" "initial_statuses comps" w]
  have "w' = run_world (completion_order sched comps) w" by simp
  with f show ?thesis
    by (simp add: refresh_component_state_def refresh_components_with_display_def
        split: list.splits)
qed

lemma echoed_distinct_keys:
  assumes keys: "distinct (map get_state_key comps)"
  shows "set (echoed (refresh_component_state sched comps w))
           = {(k, e). (k, Some e) \<in> set (run_outcomes (completion_order sched comps) w) \<and> truthy e}"
proof -
  let ?order = "completion_order sched comps"
  let ?outs = "run_outcomes ?order w"
  let ?st = "fst (fold refresh_component ?order (initial_statuses comps, w))"
  have d: "distinct (map fst ?st)"
    by (rule fold_refresh_distinct) (rule initial_statuses_distinct)
  have "distinct (map fst ?outs)"
    using keys by (simp add: map_fst_run_outcomes distinct_map_completion_order)
  then have outs: "map_of (rev ?outs) k = Some r \<longleftrightarrow> (k, r) \<in> set ?outs" for k r
    by (simp add: rev_map [symmetric])
  have mem: "(k, s) \<in> set ?st \<longleftrightarrow> (\<exists>r. (k, r) \<in> set ?outs \<and> s = status_of_outcome r)" for k s
  proof
    assume a: "(k, s) \<in> set ?st"
    then have "k \<in> get_state_key ` set ?order"
      using fold_refresh_keys [of ?order "initial_statuses comps" w]
      by (force simp: initial_statuses_keys set_completion_order)
    from run_outcomes_lookup [OF this, of w] obtain r where r: "map_of (rev ?outs) k = Some r" ..
    moreover from a d have "map_of ?st k = Some s" by simp
    ultimately have "s = status_of_outcome r" by (simp add: fold_refresh_map_of)
    with r outs show "\<exists>r. (k, r) \<in> set ?outs \<and> s = status_of_outcome r" by blast
  next
    assume "\<exists>r. (k, r) \<in> set ?outs \<and> s = status_of_outcome r"
    then obtain r where "map_of (rev ?outs) k = Some r" and "s = status_of_outcome r"
      using outs by blast
    then have "map_of ?st k = Some s" by (simp add: fold_refresh_map_of)
    then show "(k, s) \<in> set ?st" by (rule map_of_SomeD)
  qed
  have "(\<exists>s. (k, s) \<in> set ?st \<and> status s = Error \<and> error s = Some e \<and> truthy e)
          \<longleftrightarrow> (k, Some e) \<in> set ?outs \<and> truthy e"
    for k e
    unfolding mem by (auto simp: status_of_outcome_def split: option.splits)
  then show ?thesis
    by (simp add: refresh_component_state_echoed refresh_components_with_display_def
        set_collect_errors)
qed

subsection \<open>Components that upload through the storage\<close>

lemma state_backed_component_key [simp]:
  "get_state_key (state_backed_component ser deser base_dir (k, v, p, ws)) = k"
  by (simp add: state_backed_component_def)

lemma state_backed_component_keys:
  "map get_state_key (map (state_backed_component ser deser base_dir) specs) = map fst specs"
  by (induction specs) auto

lemma state_backed_component_keeps:
  assumes rt: "\<forall>info. deser (ser info) = Inr info"
    and other: "k \<noteq> key"
    and hv: "latest_version deser w k = Inr (Some v0)"
  shows "latest_version deser
           (snd (refresh_state (state_backed_component ser deser base_dir (key, v, p, ws)) w)) k
           = Inr (Some v0)"
proof -
  obtain r f1 where s: "ws (fs w) = (r, f1)" by (cases "ws (fs w)")
  show ?thesis
  proof (cases r)
    case None
    from hv have "latest_version deser (w\<lparr>fs := f1\<rparr>) k = Inr (Some v0)" by simp
    from upload_keeps [OF rt other this] show ?thesis
      by (simp add: state_backed_component_def s None)
  next
    case (Some e)
    with hv show ?thesis by (simp add: state_backed_component_def s)
  qed
qed

lemma state_backed_component_publishes:
  assumes rt: "\<forall>info. deser (ser info) = Inr info"
    and ok: "fst (refresh_state (state_backed_component ser deser base_dir (key, v, p, ws)) w) = None"
  shows "latest_version deser
           (snd (refresh_state (state_backed_component ser deser base_dir (key, v, p, ws)) w)) key
           = Inr (Some v)"
proof -
  obtain r f1 where s: "ws (fs w) = (r, f1)" by (cases "ws (fs w)")
  obtain r2 w1 where u: "upload_state_from_path ser deser base_dir key v p (w\<lparr>fs := f1\<rparr>) = (r2, w1)"
    by (cases "upload_state_from_path ser deser base_dir key v p (w\<lparr>fs := f1\<rparr>)")
  from ok s u have "r = None" and "r2 = None"
    by (cases r; simp add: state_backed_component_def)+
  with u upload_None obtain f2 where
    "set_latest_version ser deser key v (w\<lparr>fs := f1, fs := f2\<rparr>) = (None, w1)"
    by fastforce
  from set_latest_version_publishes [OF rt this] show ?thesis
    by (simp add: state_backed_component_def s u \<open>r = None\<close>)
qed

lemma run_world_keeps:
  assumes rt: "\<forall>info. deser (ser info) = Inr info"
    and other: "k \<notin> fst ` set specs"
    and hv: "latest_version deser w k = Inr (Some v0)"
  shows "latest_version deser
           (run_world (map (state_backed_component ser deser base_dir) specs) w) k = Inr (Some v0)"
  using other hv
proof (induction specs arbitrary: w)
  case Nil
  then show ?case by simp
next
  case (Cons s specs)
  obtain key v p ws where s: "s = (key, v, p, ws)" by (cases s)
  with Cons.prems have "k \<noteq> key" by auto
  from state_backed_component_keeps [OF rt this Cons.prems(2)] Cons show ?case
    by (simp add: s)
qed

lemma run_world_publishes:
  assumes rt: "\<forall>info. deser (ser info) = Inr info"
    and d: "distinct (map fst specs)"
    and mem: "(k, v, p, ws) \<in> set specs"
    and ok: "(k, None) \<in> set (run_outcomes (map (state_backed_component ser deser base_dir) specs) w)"
  shows "latest_version deser
           (run_world (map (state_backed_component ser deser base_dir) specs) w) k = Inr (Some v)"
  using d mem ok
proof (induction specs arbitrary: w)
  case Nil
  then show ?case by simp
next
  case (Cons s specs)
  let ?sbc = "state_backed_component ser deser base_dir"
  obtain key v' p' ws' where s: "s = (key, v', p', ws')" by (cases s)
  show ?case
  proof (cases "k = key")
    case True
    with Cons.prems(1,2) s have eq: "(k, v, p, ws) = s" and notin: "k \<notin> fst ` set specs"
      by force+
    have "(k, None) \<notin> set (run_outcomes (map ?sbc specs) w1)" for w1
    proof
      assume a: "(k, None) \<in> set (run_outcomes (map ?sbc specs) w1)"
      have "map fst (run_outcomes (map ?sbc specs) w1) = map fst specs"
        by (simp only: map_fst_run_outcomes state_backed_component_keys)
      moreover from a have "k \<in> set (map fst (run_outcomes (map ?sbc specs) w1))"
        by force
      ultimately show False using notin by simp
    qed
    with Cons.prems(3) eq have "fst (refresh_state (?sbc (k, v, p, ws)) w) = None"
      by auto
    from state_backed_component_publishes [OF rt this]
    have "latest_version deser (snd (refresh_state (?sbc (k, v, p, ws)) w)) k = Inr (Some v)" .
    from run_world_keeps [OF rt notin this] eq show ?thesis by auto
  next
    case False
    with Cons.prems s have "(k, v, p, ws) \<in> set specs"
      and "(k, None) \<in> set (run_outcomes (map ?sbc specs) (snd (refresh_state (?sbc s) w)))"
      by auto
    with Cons.IH Cons.prems(1) show ?thesis by simp
  qed
qed

section \<open>Claims about the refresh command\<close>

text \<open>
  C9. When no component is targeted, the command echoes no error and raises nothing,
  and the world is the one it started in: \<^verbatim>\<open>get_latest_defs_state_info()\<close> returns what
  it returned before, so an absent record is still absent.
\<close>

theorem refresh_component_state_empty:
  "refresh_component_state sched [] w = \<lparr>echoed = [], raised = None, final = w\<rparr>
   \<and> get_latest_defs_state_info deser (final (refresh_component_state sched [] w))
       = get_latest_defs_state_info deser w"
  by (simp add: refresh_component_state_def refresh_components_with_display_def
      completion_order_Nil initial_statuses_def)

text \<open>
  C10. For every list of components and every order in which their coroutines finish,
  the status map after the join has exactly one entry for each distinct state key, and
  every entry is \<^verbatim>\<open>success\<close> or \<^verbatim>\<open>error\<close>, never \<^verbatim>\<open>updating\<close>: the entry of a key is the
  status recorded for the outcome of the component with that key that finished last.
\<close>

theorem status_map_after_join:
  assumes run: "refresh_components_with_display sched comps (initial_statuses comps) w = (statuses, w')"
  shows "distinct (map fst statuses)
         \<and> fst ` set statuses = get_state_key ` set comps
         \<and> (\<forall>(key, st) \<in> set statuses. status st = Success \<or> status st = Error)
         \<and> (\<forall>key \<in> get_state_key ` set comps.
              \<exists>r. map_of (rev (run_outcomes (completion_order sched comps) w)) key = Some r
                  \<and> map_of statuses key = Some (status_of_outcome r))"
proof -
  let ?order = "completion_order sched comps"
  from run have st: "statuses = fst (fold refresh_component ?order (initial_statuses comps, w))"
    by (simp add: refresh_components_with_display_def)
  have d: "distinct (map fst statuses)"
    unfolding st by (rule fold_refresh_distinct) (rule initial_statuses_distinct)
  have k: "fst ` set statuses = get_state_key ` set comps"
    unfolding st by (simp add: fold_refresh_keys initial_statuses_keys set_completion_order)
  have l: "\<exists>r. map_of (rev (run_outcomes ?order w)) key = Some r
              \<and> map_of statuses key = Some (status_of_outcome r)"
    if "key \<in> get_state_key ` set comps" for key
  proof -
    from that have "key \<in> get_state_key ` set ?order"
      by (simp add: set_completion_order)
    from run_outcomes_lookup [OF this, of w] obtain r where
      "map_of (rev (run_outcomes ?order w)) key = Some r" ..
    then show ?thesis
      unfolding st by (simp add: fold_refresh_map_of)
  qed
  have t: "status s = Success \<or> status s = Error" if "(key, s) \<in> set statuses" for key s
  proof -
    from that d have "map_of statuses key = Some s" by simp
    moreover from that k have "key \<in> get_state_key ` set comps" by force
    ultimately have "\<exists>r. s = status_of_outcome r" using l by fastforce
    then show ?thesis by (auto simp: status_of_outcome_def split: option.splits)
  qed
  from d k l t show ?thesis by blast
qed

text \<open>
  An instance: three components, the first and the third with the state key \<^verbatim>\<open>a\<close>; the
  first raises, the others return. The status map has the two entries \<^verbatim>\<open>a\<close> and \<^verbatim>\<open>b\<close>,
  and the entry of \<^verbatim>\<open>a\<close> is the success of the third component.
\<close>

theorem status_map_after_join_witness:
  "refresh_components_with_display first_pending example_same_key
     (initial_statuses example_same_key) ()
     = ([(''a'', \<lparr>status = Success, error = None\<rparr>),
         (''b'', \<lparr>status = Success, error = None\<rparr>)], ())
   \<and> run_outcomes (completion_order first_pending example_same_key) ()
       = [(''a'', Some (RefreshError ''boom'')), (''b'', None), (''a'', None)]
   \<and> map get_state_key example_same_key = [''a'', ''b'', ''a'']"
proof -
  have run: "refresh_components_with_display first_pending example_same_key
     (initial_statuses example_same_key) ()
     = ([(''a'', \<lparr>status = Success, error = None\<rparr>),
         (''b'', \<lparr>status = Success, error = None\<rparr>)], ())"
    by (simp add: eval_defs)
  have outs: "run_outcomes (completion_order first_pending example_same_key) ()
       = [(''a'', Some (RefreshError ''boom'')), (''b'', None), (''a'', None)]"
    by (simp add: eval_defs)
  have keys: "map get_state_key example_same_key = [''a'', ''b'', ''a'']"
    by (simp add: example_same_key_def)
  from status_map_after_join [OF run] run outs keys show ?thesis by simp
qed

text \<open>
  C4, as amended. Let the components have pairwise different state keys and refresh by
  uploading through the storage, let every exception that is raised be true in a
  boolean context, and let at least one component raise. Then, in whichever order the
  coroutines finish, the command echoes exactly the \<^verbatim>\<open>(key, error)\<close> pairs of the
  components that raised, it raises (the exception of the first echoed pair), and in the
  world it leaves behind the latest-version record maps the key of every component that
  returned to the version that component uploaded: nothing is rolled back. The
  serializer is assumed to round-trip.
\<close>

theorem refresh_component_state_partial_failure:
  assumes rt: "\<forall>info. deser (ser info) = Inr info"
    and comps: "comps = map (state_backed_component ser deser base_dir) specs"
    and keys: "distinct (map get_state_key comps)"
    and true: "\<forall>(k, r) \<in> set (run_outcomes (completion_order sched comps) w).
                 \<forall>e. r = Some e \<longrightarrow> truthy e"
    and failed: "(k0, Some e0) \<in> set (run_outcomes (completion_order sched comps) w)"
  shows "set (echoed (refresh_component_state sched comps w))
           = {(k, e). (k, Some e) \<in> set (run_outcomes (completion_order sched comps) w)}
         \<and> echoed (refresh_component_state sched comps w) \<noteq> []
         \<and> raised (refresh_component_state sched comps w)
             = Some (snd (hd (echoed (refresh_component_state sched comps w))))
         \<and> (\<forall>(k, v, p, ws) \<in> set specs.
               (k, None) \<in> set (run_outcomes (completion_order sched comps) w) \<longrightarrow>
               latest_version deser (final (refresh_component_state sched comps w)) k = Inr (Some v))"
proof -
  let ?r = "refresh_component_state sched comps w"
  let ?specs = "completion_order sched specs"
  have "set (echoed ?r)
          = {(k, e). (k, Some e) \<in> set (run_outcomes (completion_order sched comps) w) \<and> truthy e}"
    using keys by (rule echoed_distinct_keys)
  with true have
    e: "set (echoed ?r) = {(k, e). (k, Some e) \<in> set (run_outcomes (completion_order sched comps) w)}"
    by auto
  with failed have ne: "echoed ?r \<noteq> []" by auto
  then have ra: "raised ?r = Some (snd (hd (echoed ?r)))"
    by (cases "echoed ?r") (simp_all add: refresh_component_state_raised)
  have order: "completion_order sched comps = map (state_backed_component ser deser base_dir) ?specs"
    by (simp add: comps completion_order_map)
  from keys have d: "distinct (map fst ?specs)"
    by (simp add: comps state_backed_component_keys distinct_map_completion_order
        del: map_map)
  have "latest_version deser (final ?r) k = Inr (Some v)"
    if "(k, v, p, ws) \<in> set specs"
      and "(k, None) \<in> set (run_outcomes (completion_order sched comps) w)" for k v p ws
  proof -
    from that(1) have "(k, v, p, ws) \<in> set ?specs" by (simp add: set_completion_order)
    from run_world_publishes [where ser = ser and deser = deser, OF rt d this] that(2)
    show ?thesis
      by (simp add: refresh_component_state_final order)
  qed
  with e ne ra show ?thesis by blast
qed

text \<open>
  An instance: the three components \<^verbatim>\<open>a\<close>, \<^verbatim>\<open>b\<close> and \<^verbatim>\<open>c\<close>, of which \<^verbatim>\<open>b\<close> fails to write
  its state. The command echoes the one pair of \<^verbatim>\<open>b\<close> and raises its exception; the
  record maps \<^verbatim>\<open>a\<close> and \<^verbatim>\<open>c\<close> to their new versions and has no entry for \<^verbatim>\<open>b\<close>.
\<close>

theorem refresh_component_state_partial_failure_witness:
  "distinct (map get_state_key example_components)
   \<and> run_outcomes (completion_order first_pending example_components) example_world
       = [(''a'', None), (''b'', Some (RefreshError ''fail_write'')), (''c'', None)]
   \<and> echoed (refresh_component_state first_pending example_components example_world)
       = [(''b'', RefreshError ''fail_write'')]
   \<and> raised (refresh_component_state first_pending example_components example_world)
       = Some (RefreshError ''fail_write'')
   \<and> latest_version example_deser
        (final (refresh_component_state first_pending example_components example_world)) ''a''
       = Inr (Some ''v2'')
   \<and> latest_version example_deser
        (final (refresh_component_state first_pending example_components example_world)) ''c''
       = Inr (Some ''v2'')
   \<and> latest_version example_deser
        (final (refresh_component_state first_pending example_components example_world)) ''b''
       = Inr None"
proof -
  have keys: "distinct (map get_state_key example_components)"
    by (simp add: eval_defs)
  have outs: "run_outcomes (completion_order first_pending example_components) example_world
       = [(''a'', None), (''b'', Some (RefreshError ''fail_write'')), (''c'', None)]"
    by (simp add: eval_defs)
  then have failed: "(''b'', Some (RefreshError ''fail_write''))
      \<in> set (run_outcomes (completion_order first_pending example_components) example_world)"
    by simp
  have echo: "echoed (refresh_component_state first_pending example_components example_world)
       = [(''b'', RefreshError ''fail_write'')]"
    by (simp add: eval_defs)
  have b: "latest_version example_deser
        (final (refresh_component_state first_pending example_components example_world)) ''b''
       = Inr None"
    by (simp add: eval_defs)
  have true: "\<forall>(k, r) \<in> set (run_outcomes (completion_order first_pending example_components)
                                example_world).
                \<forall>e. r = Some e \<longrightarrow> truthy e"
    by (simp add: outs truthy_def)
  from refresh_component_state_partial_failure
         [where ser = example_ser and deser = example_deser,
          OF example_codec example_components_def keys true failed]
       keys outs echo b
  show ?thesis by (simp add: example_specs_def)
qed

text \<open>
  The claim as it is written fails when two components have the same state key: the
  refresh of the first raises, the refresh of the second returns and overwrites the
  status of the key. The command echoes no error and raises nothing, although a
  component of the batch ended in error.
\<close>

theorem masked_failure_counterexample:
  "map get_state_key example_masked = [''a'', ''a'']
   \<and> run_outcomes (completion_order first_pending example_masked) example_world
       = [(''a'', Some (RefreshError ''fail_write'')), (''a'', None)]
   \<and> echoed (refresh_component_state first_pending example_masked example_world) = []
   \<and> raised (refresh_component_state first_pending example_masked example_world) = None"
  by (simp add: eval_defs)

end
